theory Spec2Isabelle
  imports Main "HOL-Library.Multiset"
begin

section \<open>Step recorder: data model\<close>

text \<open>
  \<^verbatim>\<open>sortingAlgorithms.ts\<close>: a \<^verbatim>\<open>SortStep\<close> holds a full copy of the array and the
  optional pairs of indices being compared or swapped (\<^verbatim>\<open>null\<close> is \<open>None\<close>).
  Array elements are integers (the data model of the visualizer; the recorders only
  compare and move them). Indices are JavaScript numbers that take integer values,
  negative ones included (\<^verbatim>\<open>low - 1\<close>, \<^verbatim>\<open>array.length - 1\<close> on an empty array), so
  they are \<open>int\<close>.
\<close>

record SortStep =
  array :: "int list"
  comparing :: "(int \<times> int) option"
  swapping :: "(int \<times> int) option"

text \<open>
  The mutable state of one recorder call: the working copy \<^verbatim>\<open>array\<close>/\<^verbatim>\<open>arr\<close> and the
  list \<^verbatim>\<open>steps\<close> that \<^verbatim>\<open>steps.push\<close> extends at its end.
\<close>

record recorder =
  arr :: "int list"
  steps :: "SortStep list"

text \<open>
  \<^verbatim>\<open>arr[k]\<close>. Outside \<open>0 .. length - 1\<close> JavaScript reads \<^verbatim>\<open>undefined\<close>; that is \<open>None\<close>.
\<close>

definition at :: "int list \<Rightarrow> int \<Rightarrow> int option" where
  "at a k = (if 0 \<le> k \<and> k < int (length a) then Some (a ! nat k) else None)"

text \<open>
  \<^verbatim>\<open>[arr[i], arr[j]] = [arr[j], arr[i]]\<close>: both elements are read, then \<^verbatim>\<open>arr[i]\<close> and
  \<^verbatim>\<open>arr[j]\<close> are written in that order. With an index outside the array JavaScript
  would store \<^verbatim>\<open>undefined\<close> or grow the array; an integer list cannot hold that, so the
  model stops with \<open>None\<close> there. The recorders below are therefore \<open>option\<close>-valued,
  and that they never reach \<open>None\<close> is part of what is proved about them.
\<close>

definition swap :: "int list \<Rightarrow> int \<Rightarrow> int \<Rightarrow> int list option" where
  "swap a i j =
     (case at a i of None \<Rightarrow> None
      | Some x \<Rightarrow>
          (case at a j of None \<Rightarrow> None
           | Some y \<Rightarrow> Some (a[nat i := y, nat j := x])))"

text \<open>\<^verbatim>\<open>steps.push({array: [...arr], comparing: c, swapping: s})\<close>.\<close>

definition push :: "(int \<times> int) option \<Rightarrow> (int \<times> int) option \<Rightarrow> recorder \<Rightarrow> recorder" where
  "push c s st = st\<lparr>steps := steps st @ [\<lparr>array = arr st, comparing = c, swapping = s\<rparr>]\<rparr>"

section \<open>Bubble sort\<close>

text \<open>
  The body of the inner loop of \<^verbatim>\<open>bubbleSort\<close>: the comparison step, and when
  \<^verbatim>\<open>array[j] > array[j + 1]\<close> the swap step, the swap and the step after the swap.
\<close>

definition bubble_body :: "int \<Rightarrow> recorder \<Rightarrow> recorder option" where
  "bubble_body j st =
     (let st1 = push (Some (j, j + 1)) None st in
      case at (arr st1) j of None \<Rightarrow> None
      | Some x \<Rightarrow>
          (case at (arr st1) (j + 1) of None \<Rightarrow> None
           | Some y \<Rightarrow>
               if x > y then
                 (let st2 = push None (Some (j, j + 1)) st1 in
                  case swap (arr st2) j (j + 1) of None \<Rightarrow> None
                  | Some a \<Rightarrow> Some (push None None (st2\<lparr>arr := a\<rparr>)))
               else Some st1))"

text \<open>\<^verbatim>\<open>for (let j = 0; j < n - i - 1; j++)\<close>, entered at \<open>j\<close>.\<close>

function bubble_inner :: "int \<Rightarrow> int \<Rightarrow> int \<Rightarrow> recorder \<Rightarrow> recorder option" where
  "bubble_inner n i j st =
     (if j < n - i - 1 then
        (case bubble_body j st of None \<Rightarrow> None
         | Some st' \<Rightarrow> bubble_inner n i (j + 1) st')
      else Some st)"
  by pat_completeness auto
termination
  by (relation "measure (\<lambda>(n, i, j, st). nat (n - i - 1 - j))") auto

declare bubble_inner.simps [simp del]

text \<open>\<^verbatim>\<open>for (let i = 0; i < n - 1; i++)\<close>, entered at \<open>i\<close>.\<close>

function bubble_outer :: "int \<Rightarrow> int \<Rightarrow> recorder \<Rightarrow> recorder option" where
  "bubble_outer n i st =
     (if i < n - 1 then
        (case bubble_inner n i 0 st of None \<Rightarrow> None
         | Some st' \<Rightarrow> bubble_outer n (i + 1) st')
      else Some st)"
  by pat_completeness auto
termination
  by (relation "measure (\<lambda>(n, i, st). nat (n - 1 - i))") auto

declare bubble_outer.simps [simp del]

definition bubbleSort :: "int list \<Rightarrow> SortStep list option" where
  "bubbleSort inputArray =
     (let st = \<lparr>arr = inputArray, steps = []\<rparr>;
          n = int (length (arr st))
      in case bubble_outer n 0 st of None \<Rightarrow> None
         | Some st' \<Rightarrow> Some (steps st'))"

section \<open>Quick sort\<close>

text \<open>
  The loop of \<^verbatim>\<open>partition\<close>, \<^verbatim>\<open>for (let j = low; j < high; j++)\<close>, entered at \<open>j\<close> with
  the boundary \<open>i\<close>; it returns the final \<open>i\<close>.
\<close>

function partition_loop ::
  "int \<Rightarrow> int \<Rightarrow> int \<Rightarrow> int \<Rightarrow> recorder \<Rightarrow> (int \<times> recorder) option" where
  "partition_loop pivot high i j st =
     (if j < high then
        (let st1 = push (Some (j, high)) None st in
         case at (arr st1) j of None \<Rightarrow> None
         | Some x \<Rightarrow>
             if x \<le> pivot then
               (let i' = i + 1;
                    st2 = push None (Some (i', j)) st1
                in case swap (arr st2) i' j of None \<Rightarrow> None
                   | Some a \<Rightarrow>
                       partition_loop pivot high i' (j + 1) (push None None (st2\<lparr>arr := a\<rparr>)))
             else partition_loop pivot high i (j + 1) st1)
      else Some (i, st))"
  by pat_completeness auto
termination
  by (relation "measure (\<lambda>(pivot, high, i, j, st). nat (high - j))") auto

declare partition_loop.simps [simp del]

text \<open>
  \<^verbatim>\<open>partition(arr, low, high)\<close>: the pivot is \<^verbatim>\<open>arr[high]\<close>; after the loop the pivot
  swap is recorded, done, and the step after it recorded; the result is \<^verbatim>\<open>i + 1\<close>.
\<close>

definition partition_qs :: "int \<Rightarrow> int \<Rightarrow> recorder \<Rightarrow> (int \<times> recorder) option" where
  "partition_qs low high st =
     (case at (arr st) high of None \<Rightarrow> None
      | Some pivot \<Rightarrow>
          (case partition_loop pivot high (low - 1) low st of None \<Rightarrow> None
           | Some (i, st1) \<Rightarrow>
               (let st2 = push None (Some (i + 1, high)) st1 in
                case swap (arr st2) (i + 1) high of None \<Rightarrow> None
                | Some a \<Rightarrow> Some (i + 1, push None None (st2\<lparr>arr := a\<rparr>)))))"

text \<open>
  \<^verbatim>\<open>quickSortHelper(arr, low, high)\<close>: left part first, then the right part. The
  recursion ends because the pivot index returned by \<^verbatim>\<open>partition\<close> lies in
  \<open>low .. high\<close>.
\<close>

function quickSortHelper :: "int \<Rightarrow> int \<Rightarrow> recorder \<Rightarrow> recorder option" where
  "quickSortHelper low high st =
     (if low < high then
        (case partition_qs low high st of None \<Rightarrow> None
         | Some (pivotIndex, st1) \<Rightarrow>
             (case quickSortHelper low (pivotIndex - 1) st1 of None \<Rightarrow> None
              | Some st2 \<Rightarrow> quickSortHelper (pivotIndex + 1) high st2))
      else Some st)"
  by pat_completeness auto
termination
proof -
  have loop: "i \<le> i' \<and> (j \<le> high \<longrightarrow> i' \<le> i + (high - j))"
    if "partition_loop pivot high i j st = Some (i', st')"
    for pivot high i j st i' st'
    using that
  proof (induction pivot high i j st rule: partition_loop.induct)
    case (1 pivot high i j st)
    show ?case
    proof (cases "j < high")
      case False
      with "1.prems" show ?thesis
        by (subst (asm) partition_loop.simps) simp
    next
      case True
      from "1.prems" True "1.IH" show ?thesis
        apply (subst (asm) partition_loop.simps)
        apply (simp add: Let_def split: option.splits if_splits)
         apply fastforce
        apply fastforce
        done
    qed
  qed
  have part: "low \<le> p \<and> p \<le> high"
    if "partition_qs low high st = Some (p, st')" "low < high"
    for low high st p st'
    using that
    by (auto simp: partition_qs_def Let_def split: option.splits dest!: loop)
  show ?thesis
    by (relation "measure (\<lambda>(low, high, st). nat (high - low))")
      (auto dest!: part)
qed

declare quickSortHelper.simps [simp del]

definition quickSort :: "int list \<Rightarrow> SortStep list option" where
  "quickSort inputArray =
     (let st = \<lparr>arr = inputArray, steps = []\<rparr> in
      case quickSortHelper 0 (int (length (arr st)) - 1) st of None \<Rightarrow> None
      | Some st' \<Rightarrow> Some (steps st'))"

section \<open>Playback controller\<close>

text \<open>
  The React state of \<^verbatim>\<open>SortingVisualizer\<close> (both variants of the component have the
  same state, handlers and effects). \<^verbatim>\<open>animationRef\<close> is never assigned, so it stays
  \<^verbatim>\<open>null\<close>, the branch of \<^verbatim>\<open>resetArray\<close> that would cancel an animation frame is
  never taken, and the ref is left out.
\<close>

datatype AlgorithmType = Bubble | Quick

record visualizer =
  array :: "int list"
  sortSteps :: "SortStep list"
  currentStep :: int
  algorithm :: AlgorithmType
  speed :: int
  isPlaying :: bool
  arraySize :: int

text \<open>The values given to \<^verbatim>\<open>useState\<close>.\<close>

definition initial :: visualizer where
  "initial = \<lparr>array = [], sortSteps = [], currentStep = - 1, algorithm = Bubble,
     speed = 50, isPlaying = False, arraySize = 30\<rparr>"

text \<open>
  The component between two moments at which the browser runs some of its code.

  \<^item> \<open>state\<close> holds the state variables with every update applied that a setter has
    queued: what the next render will see, and what an updater function
    (\<^verbatim>\<open>prev => ...\<close>) is given.
  \<^item> \<open>rendered\<close> holds the state variables of the last render: what the handlers and
    effects of that render have closed over, what \<^verbatim>\<open>disabled=...\<close> has been computed
    from, and what the dependencies of the next render are compared with.
  \<^item> \<open>arrayFresh\<close> and \<open>stepsFresh\<close>: \<^verbatim>\<open>setArray\<close>, \<^verbatim>\<open>setSortSteps\<close> has been called since
    the last render. It is always called with a new array object, and React compares
    dependencies with \<^verbatim>\<open>Object.is\<close>, so the dependency has then changed, whatever the
    array holds.
  \<^item> \<open>animDue\<close>, \<open>recomputeDue\<close>, \<open>resetDue\<close>: the last render has changed a dependency
    of the animation effect, of the effect that computes the steps, of the effect that
    calls \<^verbatim>\<open>resetArray\<close>, and the effect has not run yet.
  \<^item> \<open>armed\<close>: a timeout set by the animation effect has neither fired nor been
    cleared.
\<close>

record page =
  state :: visualizer
  rendered :: visualizer
  arrayFresh :: bool
  stepsFresh :: bool
  animDue :: bool
  recomputeDue :: bool
  resetDue :: bool
  armed :: bool

text \<open>After the first render: every effect is still to run.\<close>

definition mount :: page where
  "mount = \<lparr>state = initial, rendered = initial, arrayFresh = False, stepsFresh = False,
     animDue = True, recomputeDue = True, resetDue = True, armed = False\<rparr>"

text \<open>The setters; \<^verbatim>\<open>setCurrentStep\<close> takes the updater function.\<close>

definition setArray :: "int list \<Rightarrow> page \<Rightarrow> page" where
  "setArray a p = p\<lparr>state := (state p)\<lparr>array := a\<rparr>, arrayFresh := True\<rparr>"

definition setSortSteps :: "SortStep list \<Rightarrow> page \<Rightarrow> page" where
  "setSortSteps ss p = p\<lparr>state := (state p)\<lparr>sortSteps := ss\<rparr>, stepsFresh := True\<rparr>"

definition setCurrentStep :: "(int \<Rightarrow> int) \<Rightarrow> page \<Rightarrow> page" where
  "setCurrentStep f p = p\<lparr>state := (state p)\<lparr>currentStep := f (currentStep (state p))\<rparr>\<rparr>"

definition setAlgorithm :: "AlgorithmType \<Rightarrow> page \<Rightarrow> page" where
  "setAlgorithm a p = p\<lparr>state := (state p)\<lparr>algorithm := a\<rparr>\<rparr>"

definition setSpeed :: "int \<Rightarrow> page \<Rightarrow> page" where
  "setSpeed v p = p\<lparr>state := (state p)\<lparr>speed := v\<rparr>\<rparr>"

definition setIsPlaying :: "bool \<Rightarrow> page \<Rightarrow> page" where
  "setIsPlaying b p = p\<lparr>state := (state p)\<lparr>isPlaying := b\<rparr>\<rparr>"

definition setArraySize :: "int \<Rightarrow> page \<Rightarrow> page" where
  "setArraySize n p = p\<lparr>state := (state p)\<lparr>arraySize := n\<rparr>\<rparr>"

text \<open>
  \<^verbatim>\<open>resetArray\<close>; \<open>newArray\<close> is what \<^verbatim>\<open>generateRandomArray(arraySize, 100)\<close> returned
  (the only randomness of the program). It clears no timeout.
\<close>

definition resetArray :: "int list \<Rightarrow> page \<Rightarrow> page" where
  "resetArray newArray p =
     setCurrentStep (\<lambda>_. - 1) (setSortSteps [] (setArray newArray (setIsPlaying False p)))"

text \<open>\<^verbatim>\<open>startSort\<close> reads \<^verbatim>\<open>currentStep\<close> and \<^verbatim>\<open>sortSteps\<close> of the render it belongs to.\<close>

definition startSort :: "page \<Rightarrow> page" where
  "startSort p =
     setIsPlaying True
       (if currentStep (rendered p) \<ge> int (length (sortSteps (rendered p))) - 1
        then setCurrentStep (\<lambda>_. - 1) p else p)"

definition pauseSort :: "page \<Rightarrow> page" where
  "pauseSort p = setIsPlaying False p"

text \<open>
  The \<^verbatim>\<open>onClick\<close> of the Previous Step and Next Step buttons; the latter reads
  \<^verbatim>\<open>sortSteps\<close> of the render it belongs to.
\<close>

definition previousStep :: "page \<Rightarrow> page" where
  "previousStep p = setCurrentStep (\<lambda>prev. max 0 (prev - 1)) p"

definition nextStep :: "page \<Rightarrow> page" where
  "nextStep p =
     setCurrentStep (\<lambda>prev. min (int (length (sortSteps (rendered p))) - 1) (prev + 1)) p"

text \<open>The callback of the timeout set by the animation effect. It tests nothing.\<close>

definition timeout :: "page \<Rightarrow> page" where
  "timeout p = setCurrentStep (\<lambda>prev. prev + 1) p"


text \<open>
  The animation effect (dependencies \<^verbatim>\<open>isPlaying, currentStep, sortSteps, speed\<close>).
  Before it runs again React calls the cleanup that its last run returned, which clears
  the timeout. Then, on the values of the last render: when playing at or past the last
  step it stops playing; otherwise, when playing, it sets the timeout.
\<close>

definition animationEffect :: "page \<Rightarrow> page" where
  "animationEffect p =
     (let r = rendered p; q = p\<lparr>armed := False\<rparr>
      in if \<not> isPlaying r \<or> currentStep r \<ge> int (length (sortSteps r)) - 1 then
           (if isPlaying r \<and> currentStep r \<ge> int (length (sortSteps r)) - 1
            then setIsPlaying False q else q)
         else q\<lparr>armed := True\<rparr>)"

text \<open>
  The effect that computes the steps (dependencies \<^verbatim>\<open>array, algorithm\<close>), on the values
  of the last render. \<open>None\<close>: the recorder has thrown.
\<close>

definition recomputeEffect :: "page \<Rightarrow> page option" where
  "recomputeEffect p =
     (let r = rendered p
      in if length (array r) = 0 then Some p
         else
           (case (if algorithm r = Bubble then bubbleSort (array r) else quickSort (array r)) of
              None \<Rightarrow> None
            | Some steps' \<Rightarrow> Some (setCurrentStep (\<lambda>_. - 1) (setSortSteps steps' p))))"

text \<open>
  The effects of the last render that are due, in the order of the source; the third is
  the effect that calls \<^verbatim>\<open>resetArray\<close> (dependency \<^verbatim>\<open>arraySize\<close>).
\<close>

definition effects :: "int list \<Rightarrow> page \<Rightarrow> page option" where
  "effects newArray p =
     (let p1 = (if animDue p then animationEffect p else p)
      in case (if recomputeDue p then recomputeEffect p1 else Some p1) of
           None \<Rightarrow> None
         | Some p2 \<Rightarrow>
             Some ((if resetDue p then resetArray newArray p2 else p2)
                     \<lparr>animDue := False, recomputeDue := False, resetDue := False\<rparr>))"

text \<open>
  A render with the queued updates, and its commit: the effects whose dependencies
  differ from those of the render before become due. React runs the effects of a render
  before it renders again, so with effects due nothing happens.
\<close>

definition commit :: "page \<Rightarrow> page" where
  "commit p =
     (if animDue p \<or> recomputeDue p \<or> resetDue p then p
      else
        (let s = state p; r = rendered p
         in p\<lparr>rendered := s,
              animDue := (isPlaying s \<noteq> isPlaying r \<or> currentStep s \<noteq> currentStep r \<or>
                          stepsFresh p \<or> speed s \<noteq> speed r),
              recomputeDue := (arrayFresh p \<or> algorithm s \<noteq> algorithm r),
              resetDue := (arraySize s \<noteq> arraySize r),
              arrayFresh := False, stepsFresh := False\<rparr>))"

text \<open>
  What the user can do. A button that the last render has disabled
  (\<^verbatim>\<open>disabled=...\<close> in the JSX) does nothing.
\<close>

datatype event =
    GenerateNewArray "int list"
  | SelectAlgorithm AlgorithmType
  | ChangeSize int
  | ChangeSpeed int
  | Play
  | Pause
  | PreviousStep
  | NextStep

fun handler :: "event \<Rightarrow> page \<Rightarrow> page" where
  "handler (GenerateNewArray newArray) p = resetArray newArray p"
| "handler (SelectAlgorithm a) p = setAlgorithm a p"
| "handler (ChangeSize n) p = setArraySize n p"
| "handler (ChangeSpeed v) p = setSpeed v p"
| "handler Play p = (if isPlaying (rendered p) then p else startSort p)"
| "handler Pause p = (if \<not> isPlaying (rendered p) then p else pauseSort p)"
| "handler PreviousStep p = (if currentStep (rendered p) \<le> 0 then p else previousStep p)"
| "handler NextStep p =
     (if currentStep (rendered p) \<ge> int (length (sortSteps (rendered p))) - 1 then p
      else nextStep p)"

text \<open>
  What the browser can run next: the handler of a user event, the callback of the
  timeout if one is set, a render of the component, or the effects that are due
  (\<open>RunEffects\<close> carries the array that \<^verbatim>\<open>generateRandomArray\<close> returns if
  \<^verbatim>\<open>resetArray\<close> is called). Nothing here says in which order the browser and React do
  so: the order is the list given to \<open>exec\<close>.
\<close>

datatype action = User event | TimerFires | Render | RunEffects "int list"

fun step :: "action \<Rightarrow> page \<Rightarrow> page option" where
  "step (User e) p = Some (handler e p)"
| "step TimerFires p = Some (if armed p then (timeout p)\<lparr>armed := False\<rparr> else p)"
| "step Render p = Some (commit p)"
| "step (RunEffects newArray) p = effects newArray p"

fun exec :: "action list \<Rightarrow> page \<Rightarrow> page option" where
  "exec [] p = Some p"
| "exec (a # as) p = (case step a p of None \<Rightarrow> None | Some p' \<Rightarrow> exec as p')"

subsection \<open>The current view\<close>

text \<open>
  \<^verbatim>\<open>sortSteps[k]\<close> is \<^verbatim>\<open>undefined\<close> outside the sequence, and reading a field of
  \<^verbatim>\<open>undefined\<close> throws a \<^verbatim>\<open>TypeError\<close>.
\<close>

datatype fault = TypeError

definition step_at :: "SortStep list \<Rightarrow> int \<Rightarrow> SortStep option" where
  "step_at ss k = (if 0 \<le> k \<and> k < int (length ss) then Some (ss ! nat k) else None)"

definition field_of :: "(SortStep \<Rightarrow> 'a) \<Rightarrow> SortStep option \<Rightarrow> fault + 'a" where
  "field_of f v = (case v of None \<Rightarrow> Inl TypeError | Some st \<Rightarrow> Inr (f st))"

definition currentArray :: "visualizer \<Rightarrow> fault + int list" where
  "currentArray s =
     (if currentStep s \<ge> 0 \<and> currentStep s < int (length (sortSteps s))
      then field_of SortStep.array (step_at (sortSteps s) (currentStep s))
      else Inr (array s))"

definition currentComparing :: "visualizer \<Rightarrow> fault + (int \<times> int) option" where
  "currentComparing s =
     (if currentStep s \<ge> 0 \<and> currentStep s < int (length (sortSteps s))
      then field_of comparing (step_at (sortSteps s) (currentStep s))
      else Inr None)"

definition currentSwapping :: "visualizer \<Rightarrow> fault + (int \<times> int) option" where
  "currentSwapping s =
     (if currentStep s \<ge> 0 \<and> currentStep s < int (length (sortSteps s))
      then field_of swapping (step_at (sortSteps s) (currentStep s))
      else Inr None)"

section \<open>Properties of recorded steps\<close>

text \<open>A pair of indices of the array \<open>a\<close>.\<close>

definition in_range :: "int list \<Rightarrow> int \<times> int \<Rightarrow> bool" where
  "in_range a pq \<longleftrightarrow>
     0 \<le> fst pq \<and> fst pq < int (length a) \<and> 0 \<le> snd pq \<and> snd pq < int (length a)"

text \<open>
  A step is well formed when its comparing pair, if any, is two distinct indices of
  its array, its swapping pair, if any, is two indices of its array, and not both
  are set.
\<close>

definition step_ok :: "SortStep \<Rightarrow> bool" where
  "step_ok s \<longleftrightarrow>
     (case comparing s of None \<Rightarrow> True
      | Some pq \<Rightarrow> in_range (SortStep.array s) pq \<and> fst pq \<noteq> snd pq) \<and>
     (case swapping s of None \<Rightarrow> True | Some pq \<Rightarrow> in_range (SortStep.array s) pq) \<and>
     (comparing s = None \<or> swapping s = None)"

text \<open>
  Every swapping step is directly followed by a step with both fields \<open>None\<close> whose
  array is the swapping step's array with the two entries exchanged.
\<close>

fun swaps_followed :: "SortStep list \<Rightarrow> bool" where
  "swaps_followed [] = True"
| "swaps_followed [s] = (swapping s = None)"
| "swaps_followed (s # t # ss) =
     ((case swapping s of None \<Rightarrow> True
       | Some pq \<Rightarrow>
           comparing t = None \<and> swapping t = None \<and>
           swap (SortStep.array s) (fst pq) (snd pq) = Some (SortStep.array t)) \<and>
      swaps_followed (t # ss))"

text \<open>
  The array after a step: the step's own array, with the two entries exchanged when
  the step announces a swap. \<open>chained a es\<close>: the first step of \<open>es\<close> holds the array
  \<open>a\<close>, and every later step holds the array after the step before it. So a step that
  announces a swap holds the array as it is before the swap, and the arrays of the
  sequence change at the swaps that it announces and nowhere else.
\<close>

definition after_step :: "SortStep \<Rightarrow> int list" where
  "after_step s =
     (case swapping s of None \<Rightarrow> SortStep.array s
      | Some pq \<Rightarrow>
          (case swap (SortStep.array s) (fst pq) (snd pq) of None \<Rightarrow> SortStep.array s
           | Some b \<Rightarrow> b))"

fun chained :: "int list \<Rightarrow> SortStep list \<Rightarrow> bool" where
  "chained a [] = True"
| "chained a (s # ss) = (SortStep.array s = a \<and> chained (after_step s) ss)"

text \<open>
  What holds of the steps \<open>es\<close> recorded while the working array goes from \<open>a\<close> to
  \<open>a'\<close>, for any part of a run that starts and ends between two loop iterations.
\<close>

definition frag :: "int list \<Rightarrow> SortStep list \<Rightarrow> int list \<Rightarrow> bool" where
  "frag a es a' \<longleftrightarrow>
     mset a' = mset a \<and>
     (\<forall>s\<in>set es. mset (SortStep.array s) = mset a \<and> step_ok s) \<and>
     swaps_followed es \<and> chained a es \<and>
     (if es = [] then a' = a else SortStep.array (last es) = a')"

text \<open>Bubble sort only ever names two neighbours.\<close>

definition neighbours :: "SortStep \<Rightarrow> bool" where
  "neighbours s \<longleftrightarrow>
     (case comparing s of None \<Rightarrow> True | Some pq \<Rightarrow> snd pq = fst pq + 1) \<and>
     (case swapping s of None \<Rightarrow> True | Some pq \<Rightarrow> snd pq = fst pq + 1)"

text \<open>
  A comparison step is inverted when the first of the two compared entries of its
  array is greater than the second; \<open>steps_for\<close> is the number of steps that the claim
  about the length of the sequence assigns to a step: 3 to an inverted comparison, 1
  to any other comparison, none to the other steps.
\<close>

definition inverted :: "SortStep \<Rightarrow> bool" where
  "inverted s \<longleftrightarrow>
     (case comparing s of None \<Rightarrow> False
      | Some pq \<Rightarrow>
          (case at (SortStep.array s) (fst pq) of None \<Rightarrow> False
           | Some x \<Rightarrow>
               (case at (SortStep.array s) (snd pq) of None \<Rightarrow> False
                | Some y \<Rightarrow> x > y)))"

definition steps_for :: "SortStep \<Rightarrow> nat" where
  "steps_for s = (if comparing s = None then 0 else if inverted s then 3 else 1)"

definition comparisons :: "SortStep list \<Rightarrow> nat" where
  "comparisons es = length (filter (\<lambda>s. comparing s \<noteq> None) es)"

text \<open>
  The part of \<open>frag\<close> that is particular to bubble sort: only neighbours are named,
  the steps are 3 for each inverted comparison and 1 for each other comparison, and
  the first step, if there is one, is a comparison.
\<close>

definition bubble_frag :: "int list \<Rightarrow> SortStep list \<Rightarrow> int list \<Rightarrow> bool" where
  "bubble_frag a es a' \<longleftrightarrow>
     frag a es a' \<and> (\<forall>s\<in>set es. neighbours s) \<and>
     length es = sum_list (map steps_for es) \<and>
     (es = [] \<or> comparing (hd es) \<noteq> None)"

section \<open>Loop invariants of bubble sort\<close>

text \<open>
  \<open>settled a m\<close>: every position from \<open>m\<close> on holds an element that is at least as large
  as every element before it (the part of the array that the earlier passes have put
  in place). \<open>prefix_max a j\<close>: position \<open>j\<close> holds a largest element of positions
  \<open>0 .. j\<close> (what the current pass has carried along).
\<close>

definition settled :: "int list \<Rightarrow> nat \<Rightarrow> bool" where
  "settled a m \<longleftrightarrow> (\<forall>k l. m \<le> l \<and> l < length a \<and> k \<le> l \<longrightarrow> a ! k \<le> a ! l)"

definition prefix_max :: "int list \<Rightarrow> nat \<Rightarrow> bool" where
  "prefix_max a j \<longleftrightarrow> (\<forall>k\<le>j. a ! k \<le> a ! j)"

section \<open>Loop invariants of quick sort\<close>

text \<open>
  \<open>same_outside a a' low high\<close>: nothing outside positions \<open>low .. high\<close> has changed.
  \<open>part_inv a low i j pivot\<close>: the invariant of the loop of \<^verbatim>\<open>partition\<close>, positions
  \<open>low .. i\<close> hold elements \<open>\<le> pivot\<close> and positions \<open>i + 1 .. j - 1\<close> elements
  \<open>> pivot\<close>. \<open>sorted_seg a low high\<close>: positions \<open>low .. high\<close> are in ascending order.
\<close>

definition same_outside :: "int list \<Rightarrow> int list \<Rightarrow> int \<Rightarrow> int \<Rightarrow> bool" where
  "same_outside a a' low high \<longleftrightarrow>
     length a' = length a \<and>
     (\<forall>k. 0 \<le> k \<and> k < int (length a) \<and> (k < low \<or> high < k) \<longrightarrow> a' ! nat k = a ! nat k)"

definition part_inv :: "int list \<Rightarrow> int \<Rightarrow> int \<Rightarrow> int \<Rightarrow> int \<Rightarrow> bool" where
  "part_inv a low i j pivot \<longleftrightarrow>
     (\<forall>k. low \<le> k \<and> k \<le> i \<longrightarrow> a ! nat k \<le> pivot) \<and>
     (\<forall>k. i < k \<and> k < j \<longrightarrow> pivot < a ! nat k)"

definition sorted_seg :: "int list \<Rightarrow> int \<Rightarrow> int \<Rightarrow> bool" where
  "sorted_seg a low high \<longleftrightarrow>
     (\<forall>k l. low \<le> k \<and> k \<le> l \<and> l \<le> high \<longrightarrow> a ! nat k \<le> a ! nat l)"

section \<open>The invariant of the controller\<close>


text \<open>
  Nothing is outstanding: every update has been rendered and every effect of that
  render has run.
\<close>

definition quiescent :: "page \<Rightarrow> bool" where
  "quiescent p \<longleftrightarrow>
     state p = rendered p \<and> \<not> arrayFresh p \<and> \<not> stepsFresh p \<and>
     \<not> animDue p \<and> \<not> recomputeDue p \<and> \<not> resetDue p"

text \<open>
  An order of actions in which a user event and the callback of the timeout are run
  only when nothing is outstanding: the renders and effects that the one before has
  caused have all been run. (An order in which the recorder throws is not excluded.)
\<close>

fun external :: "action \<Rightarrow> bool" where
  "external (User e) = True"
| "external TimerFires = True"
| "external Render = False"
| "external (RunEffects newArray) = False"

fun orderly :: "action list \<Rightarrow> page \<Rightarrow> bool" where
  "orderly [] p = True"
| "orderly (a # as) p =
     ((external a \<longrightarrow> quiescent p) \<and>
      (case step a p of None \<Rightarrow> True | Some p' \<Rightarrow> orderly as p'))"


section \<open>Array accesses\<close>

lemma at_Some: "0 \<le> k \<Longrightarrow> k < int (length a) \<Longrightarrow> at a k = Some (a ! nat k)"
  by (simp add: at_def)

lemma at_SomeD: "at a k = Some x \<Longrightarrow> 0 \<le> k \<and> k < int (length a) \<and> x = a ! nat k"
  by (auto simp: at_def split: if_splits)

lemma swapD:
  "swap a i j = Some b \<Longrightarrow>
     0 \<le> i \<and> i < int (length a) \<and> 0 \<le> j \<and> j < int (length a) \<and>
     b = a[nat i := a ! nat j, nat j := a ! nat i]"
  by (auto simp: swap_def dest!: at_SomeD split: option.splits)

lemma swap_Some:
  "0 \<le> i \<Longrightarrow> i < int (length a) \<Longrightarrow> 0 \<le> j \<Longrightarrow> j < int (length a) \<Longrightarrow>
     swap a i j = Some (a[nat i := a ! nat j, nat j := a ! nat i])"
  by (simp add: swap_def at_Some)

section \<open>The current view outside the sequence\<close>

text \<open>
  C8. For every step sequence and every step index outside \<open>0 .. length - 1\<close> (index
  \<open>-1\<close> and any index into an empty sequence included) the derived view is the base
  array with no comparing and no swapping highlight; and at no index at all does the
  view read a field of a step that is not there.
\<close>

theorem current_view_out_of_range:
  "(currentStep s < 0 \<or> currentStep s > int (length (sortSteps s)) - 1 \<longrightarrow>
      currentArray s = Inr (array s) \<and> currentComparing s = Inr None \<and>
      currentSwapping s = Inr None) \<and>
   currentArray s \<noteq> Inl TypeError \<and> currentComparing s \<noteq> Inl TypeError \<and>
   currentSwapping s \<noteq> Inl TypeError"
  by (auto simp: currentArray_def currentComparing_def currentSwapping_def field_of_def
      step_at_def)

theorem current_view_out_of_range_witness:
  "(let s = initial\<lparr>array := [2, 1]\<rparr> in
     (currentStep s < 0 \<or> currentStep s > int (length (sortSteps s)) - 1) \<and>
     currentArray s = Inr [2, 1] \<and> currentComparing s = Inr None \<and>
     currentSwapping s = Inr None)"
  using current_view_out_of_range [of "initial\<lparr>array := [2, 1]\<rparr>"]
  by (simp add: initial_def)

section \<open>Steps recorded by bubble sort\<close>

lemma swap_mset: "swap a i j = Some b \<Longrightarrow> mset b = mset a"
  by (auto dest!: swapD simp: mset_swap)

lemma swap_length: "swap a i j = Some b \<Longrightarrow> length b = length a"
  by (auto dest!: swapD)

lemma swaps_followed_append:
  "swaps_followed xs \<Longrightarrow> swaps_followed ys \<Longrightarrow> swaps_followed (xs @ ys)"
proof (induction xs rule: swaps_followed.induct)
  case (2 s)
  then show ?case by (cases ys) auto
qed auto

lemma swaps_followed_last: "swaps_followed es \<Longrightarrow> es \<noteq> [] \<Longrightarrow> swapping (last es) = None"
  by (induction es rule: swaps_followed.induct) simp_all

lemma chained_append:
  "chained a (xs @ ys) \<longleftrightarrow>
     chained a xs \<and> chained (if xs = [] then a else after_step (last xs)) ys"
  by (induction xs arbitrary: a) auto

lemma frag_refl: "frag a [] a"
  by (simp add: frag_def)

lemma frag_chained_append:
  assumes "frag a es a'" and "frag a' es' a''"
  shows "chained a (es @ es')"
proof (cases "es = []")
  case True
  with assms show ?thesis by (simp add: frag_def)
next
  case False
  with assms(1) have "swapping (last es) = None" "SortStep.array (last es) = a'"
    by (simp_all add: frag_def swaps_followed_last)
  then have "after_step (last es) = a'" by (simp add: after_step_def)
  with False assms show ?thesis by (simp add: chained_append frag_def)
qed

lemma frag_append:
  assumes "frag a es a'" and "frag a' es' a''"
  shows "frag a (es @ es') a''"
  using assms frag_chained_append [OF assms]
  by (auto simp: frag_def swaps_followed_append split: if_splits)

text \<open>The fragments that one loop iteration records.\<close>

lemma frag_comparison:
  assumes "in_range a (p, q)" "p \<noteq> q"
  shows "frag a [\<lparr>SortStep.array = a, comparing = Some (p, q), swapping = None\<rparr>] a"
  using assms by (simp add: frag_def step_ok_def)

lemma frag_swap:
  assumes "swap a p q = Some b"
  shows "frag a [\<lparr>SortStep.array = a, comparing = None, swapping = Some (p, q)\<rparr>,
                 \<lparr>SortStep.array = b, comparing = None, swapping = None\<rparr>] b"
proof -
  from assms have "in_range a (p, q)" "mset b = mset a"
    by (auto dest: swapD swap_mset simp: in_range_def)
  with assms show ?thesis by (simp add: frag_def step_ok_def after_step_def)
qed

lemma bubble_body_cases:
  assumes "bubble_body j st = Some st'"
  obtains
    (keep) x y where "at (arr st) j = Some x" "at (arr st) (j + 1) = Some y" "\<not> x > y"
      "st' = st\<lparr>steps := steps st @
         [\<lparr>SortStep.array = arr st, comparing = Some (j, j + 1), swapping = None\<rparr>]\<rparr>"
  | (swap) x y b where "at (arr st) j = Some x" "at (arr st) (j + 1) = Some y" "x > y"
      "swap (arr st) j (j + 1) = Some b"
      "st' = st\<lparr>arr := b, steps := steps st @
         [\<lparr>SortStep.array = arr st, comparing = Some (j, j + 1), swapping = None\<rparr>,
          \<lparr>SortStep.array = arr st, comparing = None, swapping = Some (j, j + 1)\<rparr>,
          \<lparr>SortStep.array = b, comparing = None, swapping = None\<rparr>]\<rparr>"
  using assms
  by (simp add: bubble_body_def push_def Let_def split: option.splits if_splits)


lemma bubble_body_frag:
  assumes "bubble_body j st = Some st'"
  shows "\<exists>es. steps st' = steps st @ es \<and> bubble_frag (arr st) es (arr st') \<and>
            comparisons es = 1"
  using assms
proof (cases rule: bubble_body_cases)
  case (keep x y)
  let ?c = "\<lparr>SortStep.array = arr st, comparing = Some (j, j + 1), swapping = None\<rparr>"
  from keep have r: "in_range (arr st) (j, j + 1)"
    by (auto simp: in_range_def dest!: at_SomeD)
  then have "frag (arr st) [?c] (arr st)" by (simp add: frag_comparison)
  moreover have "neighbours ?c" "comparisons [?c] = 1"
    by (simp_all add: neighbours_def comparisons_def)
  moreover from keep have "steps_for ?c = 1"
    by (simp add: steps_for_def inverted_def)
  ultimately show ?thesis using keep(4) by (simp add: bubble_frag_def)
next
  case (swap x y b)
  let ?c = "\<lparr>SortStep.array = arr st, comparing = Some (j, j + 1), swapping = None\<rparr>"
  let ?s = "\<lparr>SortStep.array = arr st, comparing = None, swapping = Some (j, j + 1)\<rparr>"
  let ?d = "\<lparr>SortStep.array = b, comparing = None, swapping = None\<rparr>"
  from swap have r: "in_range (arr st) (j, j + 1)"
    by (auto simp: in_range_def dest!: at_SomeD)
  then have "frag (arr st) [?c] (arr st)" by (simp add: frag_comparison)
  from frag_append [OF this frag_swap [OF swap(4)]]
  have "frag (arr st) [?c, ?s, ?d] b" by simp
  moreover have "neighbours ?c" "neighbours ?s" "neighbours ?d" "comparisons [?c, ?s, ?d] = 1"
    by (simp_all add: neighbours_def comparisons_def)
  moreover from swap have "steps_for ?c = 3" "steps_for ?s = 0" "steps_for ?d = 0"
    by (simp_all add: steps_for_def inverted_def)
  ultimately show ?thesis using swap(5) by (simp add: bubble_frag_def)
qed


lemma bubble_frag_refl: "bubble_frag a [] a"
  by (simp add: bubble_frag_def frag_refl)

lemma bubble_frag_append:
  assumes "bubble_frag a es a'" and "bubble_frag a' es' a''"
  shows "bubble_frag a (es @ es') a''"
proof -
  from assms have "es @ es' = [] \<or> comparing (hd (es @ es')) \<noteq> None"
    by (cases "es = []") (simp_all add: bubble_frag_def)
  moreover from assms have "frag a (es @ es') a''"
    by (auto simp: bubble_frag_def intro: frag_append)
  ultimately show ?thesis using assms by (auto simp: bubble_frag_def)
qed

lemma comparisons_append: "comparisons (xs @ ys) = comparisons xs + comparisons ys"
  by (simp add: comparisons_def)

lemma bubble_inner_frag:
  "bubble_inner n i j st = Some st' \<Longrightarrow>
     \<exists>es. steps st' = steps st @ es \<and> bubble_frag (arr st) es (arr st') \<and>
          comparisons es = nat (n - i - 1 - j)"
proof (induction n i j st rule: bubble_inner.induct)
  case (1 n i j st)
  show ?case
  proof (cases "j < n - i - 1")
    case False
    with "1.prems" have "st' = st" by (simp add: bubble_inner.simps)
    with False show ?thesis by (simp add: bubble_frag_refl comparisons_def)
  next
    case True
    with "1.prems" obtain st1 where b: "bubble_body j st = Some st1"
      and r: "bubble_inner n i (j + 1) st1 = Some st'"
      by (auto simp: bubble_inner.simps [of n i j] split: option.splits)
    from bubble_body_frag [OF b] obtain es1 where
      e1: "steps st1 = steps st @ es1" "bubble_frag (arr st) es1 (arr st1)" "comparisons es1 = 1"
      by blast
    from "1.IH" [OF True b r] obtain es2 where
      e2: "steps st' = steps st1 @ es2" "bubble_frag (arr st1) es2 (arr st')"
        "comparisons es2 = nat (n - i - 1 - (j + 1))"
      by blast
    from e1 e2 True have "steps st' = steps st @ (es1 @ es2)"
      "bubble_frag (arr st) (es1 @ es2) (arr st')"
      "comparisons (es1 @ es2) = nat (n - i - 1 - j)"
      by (auto simp: comparisons_append intro: bubble_frag_append)
    then show ?thesis by blast
  qed
qed

lemma triangle_step: "Suc m * (Suc m - 1) div 2 = m + m * (m - 1) div 2"
proof -
  have "Suc m * (Suc m - 1) = 2 * m + m * (m - 1)"
    by (cases m) (simp_all add: algebra_simps)
  then show ?thesis by simp
qed

lemma bubble_outer_frag:
  "bubble_outer n i st = Some st' \<Longrightarrow>
     \<exists>es. steps st' = steps st @ es \<and> bubble_frag (arr st) es (arr st') \<and>
          comparisons es = nat (n - i) * (nat (n - i) - 1) div 2"
proof (induction n i st rule: bubble_outer.induct)
  case (1 n i st)
  show ?case
  proof (cases "i < n - 1")
    case False
    with "1.prems" have "st' = st" by (simp add: bubble_outer.simps)
    moreover from False have "nat (n - i) = 0 \<or> nat (n - i) = 1" by auto
    ultimately show ?thesis by (auto simp: bubble_frag_refl comparisons_def)
  next
    case True
    with "1.prems" obtain st1 where b: "bubble_inner n i 0 st = Some st1"
      and r: "bubble_outer n (i + 1) st1 = Some st'"
      by (auto simp: bubble_outer.simps [of n i] split: option.splits)
    from bubble_inner_frag [OF b] obtain es1 where
      e1: "steps st1 = steps st @ es1" "bubble_frag (arr st) es1 (arr st1)"
        "comparisons es1 = nat (n - i - 1)"
      by auto
    from "1.IH" [OF True b r] obtain es2 where
      e2: "steps st' = steps st1 @ es2" "bubble_frag (arr st1) es2 (arr st')"
        "comparisons es2 = nat (n - (i + 1)) * (nat (n - (i + 1)) - 1) div 2"
      by blast
    from True have m: "nat (n - i) = Suc (nat (n - i - 1))" "n - (i + 1) = n - i - 1"
      by auto
    have "nat (n - i) * (nat (n - i) - 1) div 2 =
        nat (n - i - 1) + nat (n - i - 1) * (nat (n - i - 1) - 1) div 2"
      unfolding m(1) by (rule triangle_step)
    moreover from e1 e2 have "comparisons (es1 @ es2) =
        nat (n - i - 1) + nat (n - i - 1) * (nat (n - i - 1) - 1) div 2"
      by (simp add: comparisons_append m(2))
    moreover from e1 e2 have "steps st' = steps st @ (es1 @ es2)"
      "bubble_frag (arr st) (es1 @ es2) (arr st')"
      by (auto intro: bubble_frag_append)
    ultimately show ?thesis by metis
  qed
qed

section \<open>Bubble sort sorts\<close>

lemma frag_length: "frag a es a' \<Longrightarrow> length a' = length a"
  by (auto simp: frag_def dest: mset_eq_length)

lemma bubble_frag_length: "bubble_frag a es a' \<Longrightarrow> length a' = length a"
  by (auto simp: bubble_frag_def dest: frag_length)

text \<open>What one iteration of the inner loop does to the array, with the index as a \<open>nat\<close>.\<close>

lemma bubble_body_arr:
  assumes "bubble_body j st = Some st'"
  obtains J where "j = int J" "Suc J < length (arr st)"
    "arr st' = (if arr st ! J > arr st ! Suc J
                then (arr st)[J := arr st ! Suc J, Suc J := arr st ! J] else arr st)"
  using assms
proof (cases rule: bubble_body_cases)
  case (keep x y)
  from keep(1,2) have r: "0 \<le> j" "j + 1 < int (length (arr st))"
    "x = arr st ! nat j" "y = arr st ! nat (j + 1)"
    by (auto dest!: at_SomeD)
  then have "nat (j + 1) = Suc (nat j)" by simp
  with r keep(3,4) that [of "nat j"] show ?thesis by simp
next
  case (swap x y b)
  from swap(1,2) have r: "0 \<le> j" "j + 1 < int (length (arr st))"
    "x = arr st ! nat j" "y = arr st ! nat (j + 1)"
    by (auto dest!: at_SomeD)
  then have s: "nat (j + 1) = Suc (nat j)" by simp
  from swapD [OF swap(4)] s
  have "b = (arr st)[nat j := arr st ! Suc (nat j), Suc (nat j) := arr st ! nat j]"
    by simp
  with r s swap(3,5) that [of "nat j"] show ?thesis by simp
qed

lemma bubble_body_total:
  assumes "0 \<le> j" "j + 1 < int (length (arr st))"
  shows "\<exists>st'. bubble_body j st = Some st'"
  using assms by (simp add: bubble_body_def push_def Let_def at_Some swap_Some)

lemma settled_swap:
  assumes "settled a m" "Suc J < m" "m \<le> length a"
  shows "settled (a[J := a ! Suc J, Suc J := a ! J]) m"
  unfolding settled_def
proof (intro allI impI)
  fix k l
  assume h: "m \<le> l \<and> l < length (a[J := a ! Suc J, Suc J := a ! J]) \<and> k \<le> l"
  let ?b = "a[J := a ! Suc J, Suc J := a ! J]"
  from h assms have l: "?b ! l = a ! l" by simp
  from h assms have "a ! J \<le> a ! l" "a ! Suc J \<le> a ! l" "a ! k \<le> a ! l"
    by (auto simp: settled_def)
  moreover from h assms have "?b ! k = a ! J \<or> ?b ! k = a ! Suc J \<or> ?b ! k = a ! k"
    by (auto simp: nth_list_update)
  ultimately show "?b ! k \<le> ?b ! l" using l by auto
qed

lemma prefix_max_step:
  assumes "prefix_max a J" "Suc J < length a"
  shows "prefix_max (if a ! J > a ! Suc J then a[J := a ! Suc J, Suc J := a ! J] else a)
           (Suc J)"
  unfolding prefix_max_def
proof (intro allI impI)
  fix k assume k: "k \<le> Suc J"
  let ?b = "if a ! J > a ! Suc J then a[J := a ! Suc J, Suc J := a ! J] else a"
  from assms k have "k < J \<Longrightarrow> a ! k \<le> a ! J" by (simp add: prefix_max_def)
  with assms k show "?b ! k \<le> ?b ! Suc J"
    by (cases "k < J") (auto simp: nth_list_update le_Suc_eq)
qed

lemma bubble_inner_sorts:
  "bubble_inner n i j st = Some st' \<Longrightarrow> n = int (length (arr st)) \<Longrightarrow> 0 \<le> i \<Longrightarrow>
     0 \<le> j \<Longrightarrow> j \<le> n - i - 1 \<Longrightarrow> settled (arr st) (nat (n - i)) \<Longrightarrow>
     prefix_max (arr st) (nat j) \<Longrightarrow>
     settled (arr st') (nat (n - i)) \<and> prefix_max (arr st') (nat (n - i - 1))"
proof (induction n i j st rule: bubble_inner.induct)
  case (1 n i j st)
  show ?case
  proof (cases "j < n - i - 1")
    case False
    with "1.prems" have "st' = st" "j = n - i - 1" by (simp_all add: bubble_inner.simps)
    with "1.prems" show ?thesis by simp
  next
    case True
    with "1.prems"(1) obtain st1 where b: "bubble_body j st = Some st1"
      and r: "bubble_inner n i (j + 1) st1 = Some st'"
      by (auto simp: bubble_inner.simps [of n i j] split: option.splits)
    from b obtain J where J: "j = int J" "Suc J < length (arr st)"
      "arr st1 = (if arr st ! J > arr st ! Suc J
                  then (arr st)[J := arr st ! Suc J, Suc J := arr st ! J] else arr st)"
      by (rule bubble_body_arr)
    from J have len: "length (arr st1) = length (arr st)" by (simp split: if_splits)
    from J True "1.prems" have lt: "Suc J < nat (n - i)" "nat (n - i) \<le> length (arr st)"
      by auto
    from "1.prems" J have pm: "prefix_max (arr st) J" by simp
    have "settled (arr st1) (nat (n - i))"
      using settled_swap [OF "1.prems"(6) lt] "1.prems"(6) J(3) by (simp split: if_splits)
    moreover have "prefix_max (arr st1) (nat (j + 1))"
      using prefix_max_step [OF pm J(2)] J by (simp add: nat_add_distrib)
    ultimately show ?thesis
      using "1.IH" [OF True b r] "1.prems" True len by simp
  qed
qed

lemma settled_next:
  assumes "settled a (Suc m)" "prefix_max a m"
  shows "settled a m"
  unfolding settled_def
proof (intro allI impI)
  fix k l assume h: "m \<le> l \<and> l < length a \<and> k \<le> l"
  show "a ! k \<le> a ! l"
  proof (cases "l = m")
    case True
    with h assms(2) show ?thesis by (simp add: prefix_max_def)
  next
    case False
    with h assms(1) show ?thesis by (simp add: settled_def)
  qed
qed

lemma settled_sorted:
  assumes "settled a m" "m \<le> 1"
  shows "sorted a"
  unfolding sorted_iff_nth_mono
proof (intro allI impI)
  fix k l assume "k \<le> l" "l < length a"
  with assms show "a ! k \<le> a ! l"
    by (cases "l = 0") (auto simp: settled_def)
qed

lemma bubble_inner_length:
  "bubble_inner n i j st = Some st' \<Longrightarrow> length (arr st') = length (arr st)"
  by (auto dest!: bubble_inner_frag bubble_frag_length)

lemma bubble_outer_sorts:
  "bubble_outer n i st = Some st' \<Longrightarrow> n = int (length (arr st)) \<Longrightarrow> 0 \<le> i \<Longrightarrow>
     settled (arr st) (nat (n - i)) \<Longrightarrow> sorted (arr st')"
proof (induction n i st rule: bubble_outer.induct)
  case (1 n i st)
  show ?case
  proof (cases "i < n - 1")
    case False
    with "1.prems" have "st' = st" "nat (n - i) \<le> 1" by (simp_all add: bubble_outer.simps)
    with "1.prems" show ?thesis by (auto intro: settled_sorted)
  next
    case True
    with "1.prems"(1) obtain st1 where b: "bubble_inner n i 0 st = Some st1"
      and r: "bubble_outer n (i + 1) st1 = Some st'"
      by (auto simp: bubble_outer.simps [of n i] split: option.splits)
    have "prefix_max (arr st) (nat 0)" by (simp add: prefix_max_def)
    with bubble_inner_sorts [OF b] "1.prems" True
    have s: "settled (arr st1) (nat (n - i))" "prefix_max (arr st1) (nat (n - i - 1))"
      by simp_all
    from True have "nat (n - i) = Suc (nat (n - i - 1))" by simp
    with s have "settled (arr st1) (nat (n - (i + 1)))"
      by (simp add: settled_next algebra_simps)
    with "1.IH" [OF True b r] "1.prems" bubble_inner_length [OF b] show ?thesis by simp
  qed
qed

section \<open>Bubble sort never leaves the array\<close>

lemma bubble_inner_total:
  "n = int (length (arr st)) \<Longrightarrow> 0 \<le> i \<Longrightarrow> 0 \<le> j \<Longrightarrow> \<exists>st'. bubble_inner n i j st = Some st'"
proof (induction n i j st rule: bubble_inner.induct)
  case (1 n i j st)
  show ?case
  proof (cases "j < n - i - 1")
    case False
    then show ?thesis by (simp add: bubble_inner.simps)
  next
    case True
    with "1.prems" obtain st1 where b: "bubble_body j st = Some st1"
      using bubble_body_total [of j st] by auto
    from bubble_body_frag [OF b] have "length (arr st1) = length (arr st)"
      by (auto dest: bubble_frag_length)
    with "1.IH" [OF True b] "1.prems" obtain st' where "bubble_inner n i (j + 1) st1 = Some st'"
      by auto
    with True b show ?thesis by (simp add: bubble_inner.simps [of n i j])
  qed
qed

lemma bubble_outer_total:
  "n = int (length (arr st)) \<Longrightarrow> 0 \<le> i \<Longrightarrow> \<exists>st'. bubble_outer n i st = Some st'"
proof (induction n i st rule: bubble_outer.induct)
  case (1 n i st)
  show ?case
  proof (cases "i < n - 1")
    case False
    then show ?thesis by (simp add: bubble_outer.simps)
  next
    case True
    from "1.prems" obtain st1 where b: "bubble_inner n i 0 st = Some st1"
      using bubble_inner_total [of n st i 0] by auto
    with "1.IH" [OF True b] "1.prems" bubble_inner_length [OF b]
    obtain st' where "bubble_outer n (i + 1) st1 = Some st'" by auto
    with True b show ?thesis by (simp add: bubble_outer.simps [of n i])
  qed
qed

text \<open>The whole run of \<^verbatim>\<open>bubbleSort\<close>.\<close>

lemma bubbleSort_run:
  obtains st' where
    "bubble_outer (int (length A)) 0 \<lparr>arr = A, steps = []\<rparr> = Some st'"
    "bubbleSort A = Some (steps st')"
    "bubble_frag A (steps st') (arr st')"
    "comparisons (steps st') = length A * (length A - 1) div 2"
    "arr st' = sort A"
proof -
  let ?st = "\<lparr>arr = A, steps = []\<rparr>"
  obtain st' where o: "bubble_outer (int (length A)) 0 ?st = Some st'"
    using bubble_outer_total [of "int (length A)" ?st 0] by auto
  then have b: "bubbleSort A = Some (steps st')" by (simp add: bubbleSort_def)
  from bubble_outer_frag [OF o] have f: "bubble_frag A (steps st') (arr st')"
    "comparisons (steps st') = length A * (length A - 1) div 2"
    by auto
  have "settled A (length A)" by (simp add: settled_def)
  with bubble_outer_sorts [OF o] have "sorted (arr st')" by simp
  moreover from f have "mset (arr st') = mset A" by (simp add: bubble_frag_def frag_def)
  ultimately have "arr st' = sort A" by (simp add: properties_for_sort)
  with o b f that show ?thesis by blast
qed

section \<open>Steps recorded by quick sort\<close>

text \<open>One iteration of the loop of \<^verbatim>\<open>partition\<close>.\<close>

lemma partition_loop_exit:
  "\<not> j < high \<Longrightarrow> partition_loop pivot high i j st = Some (i, st)"
  by (simp add: partition_loop.simps)

lemma partition_loop_step:
  assumes "partition_loop pivot high i j st = Some r" "j < high"
  obtains
    (keep) x where "at (arr st) j = Some x" "\<not> x \<le> pivot"
      "partition_loop pivot high i (j + 1)
         (st\<lparr>steps := steps st @
            [\<lparr>SortStep.array = arr st, comparing = Some (j, high), swapping = None\<rparr>]\<rparr>)
       = Some r"
  | (swap) x b where "at (arr st) j = Some x" "x \<le> pivot" "swap (arr st) (i + 1) j = Some b"
      "partition_loop pivot high (i + 1) (j + 1)
         (st\<lparr>arr := b, steps := steps st @
            [\<lparr>SortStep.array = arr st, comparing = Some (j, high), swapping = None\<rparr>,
             \<lparr>SortStep.array = arr st, comparing = None, swapping = Some (i + 1, j)\<rparr>,
             \<lparr>SortStep.array = b, comparing = None, swapping = None\<rparr>]\<rparr>)
       = Some r"
  using assms
  by (subst (asm) partition_loop.simps)
    (simp add: push_def Let_def split: option.splits if_splits)

lemma partition_loop_frag:
  "partition_loop pivot high i j st = Some (i', st') \<Longrightarrow> high < int (length (arr st)) \<Longrightarrow>
     \<exists>es. steps st' = steps st @ es \<and> frag (arr st) es (arr st')"
proof (induction "nat (high - j)" arbitrary: i j st)
  case 0
  then have "\<not> j < high" by simp
  with "0.prems" have "st' = st" by (simp add: partition_loop_exit)
  then show ?case by (simp add: frag_refl)
next
  case (Suc m)
  then have lt: "j < high" and m: "m = nat (high - (j + 1))" by auto
  let ?c = "\<lparr>SortStep.array = arr st, comparing = Some (j, high), swapping = None\<rparr>"
  from Suc.prems(1) lt show ?case
  proof (cases rule: partition_loop_step)
    case (keep x)
    from keep(1) lt Suc.prems(2) have "in_range (arr st) (j, high)" "j \<noteq> high"
      by (auto simp: in_range_def dest!: at_SomeD)
    then have c: "frag (arr st) [?c] (arr st)" by (rule frag_comparison)
    from Suc.hyps(1) [OF m keep(3)] Suc.prems(2) obtain es where
      "steps st' = (steps st @ [?c]) @ es" "frag (arr st) es (arr st')"
      by auto
    with frag_append [OF c] have "steps st' = steps st @ ([?c] @ es)"
      "frag (arr st) ([?c] @ es) (arr st')"
      by auto
    then show ?thesis by blast
  next
    case (swap x b)
    let ?s = "\<lparr>SortStep.array = arr st, comparing = None, swapping = Some (i + 1, j)\<rparr>"
    let ?d = "\<lparr>SortStep.array = b, comparing = None, swapping = None\<rparr>"
    from swap(1) lt Suc.prems(2) have "in_range (arr st) (j, high)" "j \<noteq> high"
      by (auto simp: in_range_def dest!: at_SomeD)
    then have "frag (arr st) [?c] (arr st)" by (rule frag_comparison)
    from frag_append [OF this frag_swap [OF swap(3)]]
    have c: "frag (arr st) [?c, ?s, ?d] b" by simp
    from swap(3) have "length b = length (arr st)" by (rule swap_length)
    with Suc.hyps(1) [OF m swap(4)] Suc.prems(2) obtain es where
      "steps st' = (steps st @ [?c, ?s, ?d]) @ es" "frag b es (arr st')"
      by auto
    with frag_append [OF c] have "steps st' = steps st @ ([?c, ?s, ?d] @ es)"
      "frag (arr st) ([?c, ?s, ?d] @ es) (arr st')"
      by auto
    then show ?thesis by blast
  qed
qed

lemma partition_loop_total:
  "- 1 \<le> i \<Longrightarrow> i < j \<Longrightarrow> high < int (length (arr st)) \<Longrightarrow>
     \<exists>r. partition_loop pivot high i j st = Some r"
proof (induction "nat (high - j)" arbitrary: i j st)
  case 0
  then have "\<not> j < high" by simp
  then show ?case by (simp add: partition_loop_exit)
next
  case (Suc m)
  then have lt: "j < high" and m: "m = nat (high - (j + 1))" by auto
  from Suc.prems lt have a: "at (arr st) j = Some (arr st ! nat j)"
    by (simp add: at_Some)
  show ?case
  proof (cases "arr st ! nat j \<le> pivot")
    case False
    let ?st = "push (Some (j, high)) None st"
    from Suc.hyps(1) [OF m, of i ?st] Suc.prems
    obtain r where "partition_loop pivot high i (j + 1) ?st = Some r"
      by (auto simp: push_def)
    with lt a False show ?thesis
      by (subst partition_loop.simps) (simp add: Let_def push_def)
  next
    case True
    let ?b = "(arr st)[nat (i + 1) := arr st ! nat j, nat j := arr st ! nat (i + 1)]"
    let ?st = "push None None (push None (Some (i + 1, j)) (push (Some (j, high)) None st)
                 \<lparr>arr := ?b\<rparr>)"
    from Suc.prems lt have s: "swap (arr st) (i + 1) j = Some ?b"
      by (simp add: swap_Some)
    from Suc.hyps(1) [OF m, of "i + 1" ?st] Suc.prems
    obtain r where "partition_loop pivot high (i + 1) (j + 1) ?st = Some r"
      by (auto simp: push_def)
    with lt a True s show ?thesis
      by (subst partition_loop.simps) (simp add: Let_def push_def)
  qed
qed

lemma partition_loop_bound:
  "partition_loop pivot high i j st = Some (i', st') \<Longrightarrow> j \<le> high \<Longrightarrow>
     i \<le> i' \<and> i' \<le> i + (high - j)"
proof (induction "nat (high - j)" arbitrary: i j st)
  case 0
  then have "\<not> j < high" by simp
  with "0.prems" show ?case by (simp add: partition_loop_exit)
next
  case (Suc m)
  then have lt: "j < high" and m: "m = nat (high - (j + 1))" by auto
  from Suc.prems(1) lt show ?case
  proof (cases rule: partition_loop_step)
    case (keep x)
    from Suc.hyps(1) [OF m keep(3)] lt show ?thesis by simp
  next
    case (swap x b)
    from Suc.hyps(1) [OF m swap(4)] lt show ?thesis by simp
  qed
qed

text \<open>\<^verbatim>\<open>partition\<close> taken apart.\<close>

lemma partition_qs_cases:
  assumes "partition_qs low high st = Some (p, st')"
  obtains pivot i st1 b where
    "at (arr st) high = Some pivot"
    "partition_loop pivot high (low - 1) low st = Some (i, st1)"
    "swap (arr st1) (i + 1) high = Some b"
    "p = i + 1"
    "st' = st1\<lparr>arr := b, steps := steps st1 @
       [\<lparr>SortStep.array = arr st1, comparing = None, swapping = Some (i + 1, high)\<rparr>,
        \<lparr>SortStep.array = b, comparing = None, swapping = None\<rparr>]\<rparr>"
  using assms
  by (auto simp: partition_qs_def push_def Let_def split: option.splits)

lemma partition_qs_frag:
  assumes "partition_qs low high st = Some (p, st')"
  shows "\<exists>es. steps st' = steps st @ es \<and> es \<noteq> [] \<and> frag (arr st) es (arr st')"
  using assms
proof (cases rule: partition_qs_cases)
  case (1 pivot i st1 b)
  from 1(1) have "high < int (length (arr st))" by (auto dest!: at_SomeD)
  with partition_loop_frag [OF 1(2)] obtain es where
    es: "steps st1 = steps st @ es" "frag (arr st) es (arr st1)"
    by auto
  let ?t = "[\<lparr>SortStep.array = arr st1, comparing = None, swapping = Some (i + 1, high)\<rparr>,
             \<lparr>SortStep.array = b, comparing = None, swapping = None\<rparr>]"
  from frag_append [OF es(2) frag_swap [OF 1(3)]] have "frag (arr st) (es @ ?t) b" .
  with es(1) 1(5) have "steps st' = steps st @ (es @ ?t)" "es @ ?t \<noteq> []"
    "frag (arr st) (es @ ?t) (arr st')"
    by simp_all
  then show ?thesis by blast
qed

lemma partition_qs_bound:
  assumes "partition_qs low high st = Some (p, st')" "low \<le> high"
  shows "low \<le> p \<and> p \<le> high"
  using assms(1)
proof (cases rule: partition_qs_cases)
  case (1 pivot i st1 b)
  from partition_loop_bound [OF 1(2) assms(2)] 1(4) show ?thesis by simp
qed

lemma partition_qs_total:
  assumes "0 \<le> low" "low \<le> high" "high < int (length (arr st))"
  shows "\<exists>r. partition_qs low high st = Some r"
proof -
  from assms have a: "at (arr st) high = Some (arr st ! nat high)" by (simp add: at_Some)
  from assms obtain i st1 where
    l: "partition_loop (arr st ! nat high) high (low - 1) low st = Some (i, st1)"
    using partition_loop_total [of "low - 1" low high st "arr st ! nat high"] by auto
  from partition_loop_bound [OF l assms(2)] assms have i: "0 \<le> i + 1" "i + 1 \<le> high"
    by auto
  from partition_loop_frag [OF l assms(3)] have "length (arr st1) = length (arr st)"
    by (auto dest: frag_length)
  with i assms have "\<exists>b. swap (arr st1) (i + 1) high = Some b"
    by (simp add: swap_Some)
  with a l show ?thesis by (auto simp: partition_qs_def Let_def push_def)
qed

lemma quickSortHelper_frag:
  "quickSortHelper low high st = Some st' \<Longrightarrow>
     \<exists>es. steps st' = steps st @ es \<and> (low < high \<longrightarrow> es \<noteq> []) \<and>
          frag (arr st) es (arr st')"
proof (induction low high st arbitrary: st' rule: quickSortHelper.induct)
  case (1 low high st)
  show ?case
  proof (cases "low < high")
    case False
    with "1.prems" have "st' = st" by (simp add: quickSortHelper.simps)
    with False show ?thesis by (simp add: frag_refl)
  next
    case True
    with "1.prems" obtain p st1 st2 where p: "partition_qs low high st = Some (p, st1)"
      and l: "quickSortHelper low (p - 1) st1 = Some st2"
      and r: "quickSortHelper (p + 1) high st2 = Some st'"
      by (auto simp: quickSortHelper.simps [of low high] split: option.splits)
    from partition_qs_frag [OF p] obtain es0 where
      e0: "steps st1 = steps st @ es0" "es0 \<noteq> []" "frag (arr st) es0 (arr st1)"
      by blast
    from "1.IH"(1) [OF True p refl l] obtain es1 where
      e1: "steps st2 = steps st1 @ es1" "frag (arr st1) es1 (arr st2)"
      by blast
    from "1.IH"(2) [OF True p refl l r] obtain es2 where
      e2: "steps st' = steps st2 @ es2" "frag (arr st2) es2 (arr st')"
      by blast
    from e0 e1 e2 have "steps st' = steps st @ (es0 @ es1 @ es2)" "es0 @ es1 @ es2 \<noteq> []"
      "frag (arr st) (es0 @ es1 @ es2) (arr st')"
      by (auto intro: frag_append)
    then show ?thesis by blast
  qed
qed

lemma quickSortHelper_total:
  "0 \<le> low \<Longrightarrow> high < int (length (arr st)) \<Longrightarrow> \<exists>st'. quickSortHelper low high st = Some st'"
proof (induction low high st rule: quickSortHelper.induct)
  case (1 low high st)
  show ?case
  proof (cases "low < high")
    case False
    then show ?thesis by (simp add: quickSortHelper.simps)
  next
    case True
    with "1.prems" obtain p st1 where p: "partition_qs low high st = Some (p, st1)"
      using partition_qs_total [of low high st] by auto
    from partition_qs_bound [OF p] True have b: "low \<le> p" "p \<le> high" by auto
    from partition_qs_frag [OF p] have len1: "length (arr st1) = length (arr st)"
      by (auto dest: frag_length)
    with "1.IH"(1) [OF True p refl] "1.prems" b
    obtain st2 where l: "quickSortHelper low (p - 1) st1 = Some st2" by auto
    from quickSortHelper_frag [OF l] len1 have "length (arr st2) = length (arr st)"
      by (auto dest: frag_length)
    with "1.IH"(2) [OF True p refl l] "1.prems" b
    obtain st' where "quickSortHelper (p + 1) high st2 = Some st'" by auto
    with True p l show ?thesis by (simp add: quickSortHelper.simps [of low high])
  qed
qed

section \<open>Quick sort sorts\<close>

lemma same_outside_refl: "same_outside a a low high"
  by (simp add: same_outside_def)

lemma same_outside_trans:
  assumes "same_outside a b low high" "same_outside b c low high"
  shows "same_outside a c low high"
  using assms by (simp add: same_outside_def)

lemma same_outside_mono:
  assumes "same_outside a b l h" "low \<le> l" "h \<le> high"
  shows "same_outside a b low high"
  using assms by (auto simp: same_outside_def)

lemma same_outside_swap:
  assumes "swap a p q = Some b" "low \<le> p" "p \<le> high" "low \<le> q" "q \<le> high"
  shows "same_outside a b low high"
proof -
  from swapD [OF assms(1)] have r: "0 \<le> p" "0 \<le> q"
    and b: "b = a[nat p := a ! nat q, nat q := a ! nat p]"
    by auto
  show ?thesis
    unfolding same_outside_def
  proof (intro conjI allI impI)
    show "length b = length a" using b by simp
  next
    fix k assume "0 \<le> k \<and> k < int (length a) \<and> (k < low \<or> high < k)"
    with assms r have "nat k \<noteq> nat p" "nat k \<noteq> nat q" by auto
    with b show "b ! nat k = a ! nat k" by simp
  qed
qed

text \<open>
  The effect of a swap of \<open>i + 1\<close> and \<open>j\<close> on the invariant of \<^verbatim>\<open>partition\<close>.
\<close>

lemma part_inv_swap:
  assumes "part_inv a low i j pivot" "swap a (i + 1) j = Some b" "a ! nat j \<le> pivot"
    "0 \<le> low" "low - 1 \<le> i" "i < j"
  shows "part_inv b low (i + 1) (j + 1) pivot"
proof -
  from swapD [OF assms(2)] have r: "j < int (length a)"
    and b: "b = a[nat (i + 1) := a ! nat j, nat j := a ! nat (i + 1)]"
    by auto
  have le: "b ! nat k \<le> pivot" if "low \<le> k" "k \<le> i + 1" for k
  proof (cases "k = i + 1")
    case True
    with b r assms show ?thesis by (cases "i + 1 = j") simp_all
  next
    case False
    with that assms have "nat k \<noteq> nat (i + 1)" "nat k \<noteq> nat j" "k \<le> i" by auto
    with b that assms(1) show ?thesis by (simp add: part_inv_def)
  qed
  have gt: "pivot < b ! nat k" if "i + 1 < k" "k < j + 1" for k
  proof (cases "k = j")
    case True
    with that assms have "i < i + 1" "i + 1 < j" "nat j \<noteq> nat (i + 1)" by auto
    with assms(1) have "pivot < a ! nat (i + 1)" by (simp add: part_inv_def)
    with True b r assms show ?thesis by simp
  next
    case False
    with that assms have "nat k \<noteq> nat (i + 1)" "nat k \<noteq> nat j" "i < k" "k < j" by auto
    with b assms(1) show ?thesis by (simp add: part_inv_def)
  qed
  from le gt show ?thesis by (simp add: part_inv_def)
qed

lemma part_inv_keep:
  assumes "part_inv a low i j pivot" "pivot < a ! nat j"
  shows "part_inv a low i (j + 1) pivot"
  unfolding part_inv_def
proof (intro conjI allI impI)
  fix k assume "low \<le> k \<and> k \<le> i"
  with assms(1) show "a ! nat k \<le> pivot" by (simp add: part_inv_def)
next
  fix k assume k: "i < k \<and> k < j + 1"
  show "pivot < a ! nat k"
  proof (cases "k = j")
    case True
    with assms(2) show ?thesis by simp
  next
    case False
    with k assms(1) show ?thesis by (simp add: part_inv_def)
  qed
qed

lemma partition_loop_inv:
  "partition_loop pivot high i j st = Some (i', st') \<Longrightarrow> 0 \<le> low \<Longrightarrow> low - 1 \<le> i \<Longrightarrow>
     i < j \<Longrightarrow> j \<le> high \<Longrightarrow> high < int (length (arr st)) \<Longrightarrow>
     part_inv (arr st) low i j pivot \<Longrightarrow>
     part_inv (arr st') low i' high pivot \<and> same_outside (arr st) (arr st') low (high - 1)"
proof (induction "nat (high - j)" arbitrary: i j st)
  case 0
  then have "\<not> j < high" "j = high" by simp_all
  with "0.prems" show ?case by (simp add: partition_loop_exit same_outside_refl)
next
  case (Suc m)
  then have lt: "j < high" and m: "m = nat (high - (j + 1))" by auto
  from Suc.prems(1) lt show ?case
  proof (cases rule: partition_loop_step)
    case (keep x)
    let ?st = "st\<lparr>steps := steps st @
      [\<lparr>SortStep.array = arr st, comparing = Some (j, high), swapping = None\<rparr>]\<rparr>"
    from keep(1,2) have "pivot < arr st ! nat j" by (auto dest!: at_SomeD)
    with Suc.prems(7) have "part_inv (arr ?st) low i (j + 1) pivot"
      by (simp add: part_inv_keep)
    with Suc.hyps(1) [OF m keep(3)] Suc.prems lt show ?thesis by simp
  next
    case (swap x b)
    let ?st = "st\<lparr>arr := b, steps := steps st @
      [\<lparr>SortStep.array = arr st, comparing = Some (j, high), swapping = None\<rparr>,
       \<lparr>SortStep.array = arr st, comparing = None, swapping = Some (i + 1, j)\<rparr>,
       \<lparr>SortStep.array = b, comparing = None, swapping = None\<rparr>]\<rparr>"
    from swap(1,2) have "arr st ! nat j \<le> pivot" by (auto dest!: at_SomeD)
    with part_inv_swap [OF Suc.prems(7) swap(3)] Suc.prems
    have p: "part_inv (arr ?st) low (i + 1) (j + 1) pivot" by simp
    from swap(3) have len: "length b = length (arr st)" by (rule swap_length)
    from same_outside_swap [OF swap(3), of low "high - 1"] Suc.prems lt
    have o: "same_outside (arr st) b low (high - 1)" by simp
    from Suc.hyps(1) [OF m swap(4)] p Suc.prems lt len
    have "part_inv (arr st') low i' high pivot"
      "same_outside b (arr st') low (high - 1)"
      by simp_all
    with o show ?thesis by (auto intro: same_outside_trans)
  qed
qed

text \<open>
  After \<^verbatim>\<open>partition\<close> the pivot is at the returned index, with nothing greater to its
  left and only greater elements to its right.
\<close>

lemma partition_qs_inv:
  assumes "partition_qs low high st = Some (p, st')" "0 \<le> low" "low \<le> high"
  shows "same_outside (arr st) (arr st') low high \<and>
         (\<forall>k. low \<le> k \<and> k < p \<longrightarrow> arr st' ! nat k \<le> arr st' ! nat p) \<and>
         (\<forall>k. p < k \<and> k \<le> high \<longrightarrow> arr st' ! nat p < arr st' ! nat k)"
  using assms(1)
proof (cases rule: partition_qs_cases)
  case (1 pivot i st1 b)
  from 1(1) have h: "high < int (length (arr st))" and pv: "pivot = arr st ! nat high"
    by (auto dest!: at_SomeD)
  have "part_inv (arr st) low (low - 1) low pivot" by (simp add: part_inv_def)
  with partition_loop_inv [OF 1(2) assms(2), of] assms h
  have inv: "part_inv (arr st1) low i high pivot"
    and o1: "same_outside (arr st) (arr st1) low (high - 1)"
    by simp_all
  from partition_loop_bound [OF 1(2) assms(3)] assms
  have i: "low - 1 \<le> i" "i + 1 \<le> high" "0 \<le> i + 1" by auto
  from o1 h assms have pv1: "arr st1 ! nat high = pivot"
    by (simp add: same_outside_def pv)
  from swapD [OF 1(3)] have b: "b = (arr st1)[nat (i + 1) := arr st1 ! nat high,
      nat high := arr st1 ! nat (i + 1)]"
    and len: "high < int (length (arr st1))"
    by auto
  from b len i have bp: "b ! nat (i + 1) = pivot"
    by (cases "i + 1 = high") (simp_all add: pv1)
  have le: "b ! nat k \<le> pivot" if "low \<le> k" "k < i + 1" for k
  proof -
    from that i assms have "nat k \<noteq> nat (i + 1)" "nat k \<noteq> nat high" by auto
    with b that inv show ?thesis by (simp add: part_inv_def)
  qed
  have gt: "pivot < b ! nat k" if "i + 1 < k" "k \<le> high" for k
  proof (cases "k = high")
    case True
    with that have "i < i + 1" "i + 1 < high" by auto
    with inv have "pivot < arr st1 ! nat (i + 1)" by (simp add: part_inv_def)
    with True b len that i show ?thesis by simp
  next
    case False
    with that i have "nat k \<noteq> nat (i + 1)" "nat k \<noteq> nat high" "i < k" "k < high" by auto
    with b inv show ?thesis by (simp add: part_inv_def)
  qed
  from same_outside_swap [OF 1(3), of low high] i assms
  have "same_outside (arr st1) b low high" by simp
  moreover from o1 have "same_outside (arr st) (arr st1) low high"
    by (rule same_outside_mono) simp_all
  ultimately have "same_outside (arr st) b low high"
    by (rule same_outside_trans [rotated])
  with le gt bp 1(4,5) show ?thesis by simp
qed

text \<open>
  A permutation of the array that changes nothing outside \<open>low .. high\<close> keeps every
  property that all elements of \<open>low .. high\<close> have.
\<close>

lemma seg_preserved:
  assumes m: "mset a' = mset a" and o: "same_outside a a' low high"
    and r: "0 \<le> low" "high < int (length a)"
    and P: "\<forall>k. low \<le> k \<and> k \<le> high \<longrightarrow> P (a ! nat k)"
    and k: "low \<le> k" "k \<le> high"
  shows "P (a' ! nat k)"
proof -
  define l where "l = nat low"
  define h where "h = nat (high + 1)"
  define seg where "seg = (\<lambda>x::int list. take (h - l) (drop l x))"
  from o have len: "length a' = length a" by (simp add: same_outside_def)
  from r k have lh: "l \<le> h" "h \<le> length a" "l \<le> nat k" "nat k < h"
    by (auto simp: l_def h_def)
  have split: "x = take l x @ seg x @ drop h x" for x :: "int list"
  proof -
    have "drop l x = take (h - l) (drop l x) @ drop (h - l) (drop l x)"
      by (rule append_take_drop_id [symmetric])
    also have "drop (h - l) (drop l x) = drop h x" using lh by simp
    finally have "drop l x = seg x @ drop h x" by (simp add: seg_def)
    then have "take l x @ drop l x = take l x @ seg x @ drop h x" by simp
    then show ?thesis by simp
  qed
  have t: "take l a' = take l a"
  proof (rule nth_take_lemma)
    show "l \<le> length a'" "l \<le> length a" using lh len by simp_all
    fix i
    show "i < l \<longrightarrow> a' ! i = a ! i"
    proof
      assume "i < l"
      with lh have "0 \<le> int i \<and> int i < int (length a) \<and> (int i < low \<or> high < int i)"
        by (auto simp: l_def)
      with o have "a' ! nat (int i) = a ! nat (int i)"
        unfolding same_outside_def by blast
      then show "a' ! i = a ! i" by simp
    qed
  qed
  have d: "drop h a' = drop h a"
  proof (rule nth_equalityI)
    show "length (drop h a') = length (drop h a)" using len by simp
    fix i assume "i < length (drop h a')"
    with len have i: "h + i < length a" by simp
    from r k have "high < int (h + i)" by (simp add: h_def)
    with i have "0 \<le> int (h + i) \<and> int (h + i) < int (length a) \<and>
        (int (h + i) < low \<or> high < int (h + i))"
      by simp
    with o have "a' ! nat (int (h + i)) = a ! nat (int (h + i))"
      unfolding same_outside_def by blast
    then have "a' ! (h + i) = a ! (h + i)" by (simp only: nat_int)
    with i lh len show "drop h a' ! i = drop h a ! i" by simp
  qed
  have ms: "mset x = mset (take l x) + mset (seg x) + mset (drop h x)" for x :: "int list"
  proof -
    have "mset x = mset (take l x @ seg x @ drop h x)" using split [of x] by simp
    then show ?thesis by (simp only: mset_append add.assoc)
  qed
  from m have "mset (take l a') + mset (seg a') + mset (drop h a') =
      mset (take l a) + mset (seg a) + mset (drop h a)"
    by (simp only: ms [symmetric])
  then have "mset (seg a') = mset (seg a)" by (simp add: t d)
  then have s: "set (seg a') = set (seg a)" by (rule mset_eq_setD)
  have "a' ! nat k = seg a' ! (nat k - l)"
    using lh len by (simp add: seg_def)
  moreover have "nat k - l < length (seg a')" using lh len by (simp add: seg_def)
  ultimately have "a' ! nat k \<in> set (seg a')" by (metis nth_mem)
  with s obtain n where n: "n < length (seg a)" "a' ! nat k = seg a ! n"
    by (auto simp: in_set_conv_nth)
  from n(1) lh have b: "l + n < h" by (simp add: seg_def)
  with n lh have "a' ! nat k = a ! (l + n)" by (simp add: seg_def)
  moreover from b r have "low \<le> int (l + n)" "int (l + n) \<le> high"
    by (auto simp: l_def h_def)
  with P have "P (a ! nat (int (l + n)))" by blast
  then have "P (a ! (l + n))" by (simp only: nat_int)
  ultimately show ?thesis by simp
qed

lemma quickSortHelper_sorts:
  "quickSortHelper low high st = Some st' \<Longrightarrow> 0 \<le> low \<Longrightarrow> high < int (length (arr st)) \<Longrightarrow>
     same_outside (arr st) (arr st') low high \<and> sorted_seg (arr st') low high"
proof (induction low high st arbitrary: st' rule: quickSortHelper.induct)
  case (1 low high st)
  show ?case
  proof (cases "low < high")
    case False
    with "1.prems"(1) have "st' = st" by (simp add: quickSortHelper.simps)
    moreover from False have "sorted_seg (arr st) low high"
      unfolding sorted_seg_def
    proof (intro allI impI)
      fix k l :: int assume "low \<le> k \<and> k \<le> l \<and> l \<le> high"
      with False have "k = l" by simp
      then show "arr st ! nat k \<le> arr st ! nat l" by simp
    qed
    ultimately show ?thesis by (simp add: same_outside_refl)
  next
    case True
    with "1.prems"(1) obtain p st1 st2 where p: "partition_qs low high st = Some (p, st1)"
      and l: "quickSortHelper low (p - 1) st1 = Some st2"
      and r: "quickSortHelper (p + 1) high st2 = Some st'"
      by (auto simp: quickSortHelper.simps [of low high] split: option.splits)
    let ?a = "arr st" and ?a1 = "arr st1" and ?a2 = "arr st2" and ?a' = "arr st'"
    from partition_qs_bound [OF p] True have b: "low \<le> p" "p \<le> high" by auto
    from partition_qs_inv [OF p] "1.prems" True
    have o0: "same_outside ?a ?a1 low high"
      and le1: "\<forall>k. low \<le> k \<and> k \<le> p - 1 \<longrightarrow> ?a1 ! nat k \<le> ?a1 ! nat p"
      and gt1: "\<forall>k. p + 1 \<le> k \<and> k \<le> high \<longrightarrow> ?a1 ! nat p < ?a1 ! nat k"
      by auto
    from o0 have len1: "length ?a1 = length ?a" by (simp add: same_outside_def)
    from quickSortHelper_frag [OF l] have m1: "mset ?a2 = mset ?a1"
      by (auto simp: frag_def)
    from quickSortHelper_frag [OF r] have m2: "mset ?a' = mset ?a2"
      by (auto simp: frag_def)
    from "1.IH"(1) [OF True p refl l] "1.prems" b len1
    have o1: "same_outside ?a1 ?a2 low (p - 1)" and s1: "sorted_seg ?a2 low (p - 1)"
      by simp_all
    from o1 have len2: "length ?a2 = length ?a1" by (simp add: same_outside_def)
    from "1.IH"(2) [OF True p refl l r] "1.prems" b len1 len2
    have o2: "same_outside ?a2 ?a' (p + 1) high" and s2: "sorted_seg ?a' (p + 1) high"
      by simp_all
    have inr: "0 \<le> p" "p < int (length ?a1)" using b "1.prems" len1 by auto
    have pv2: "?a2 ! nat p = ?a1 ! nat p"
      using o1 inr by (simp add: same_outside_def)
    have pv': "?a' ! nat p = ?a1 ! nat p"
      using o2 inr len2 pv2 by (simp add: same_outside_def)
    have left2: "?a2 ! nat k \<le> ?a1 ! nat p" if "low \<le> k" "k \<le> p - 1" for k
      using seg_preserved [OF m1 o1 _ _ le1 that] "1.prems" inr by simp
    have left': "?a' ! nat k = ?a2 ! nat k" if "low \<le> k" "k \<le> p - 1" for k
      using o2 that "1.prems" inr len2 by (simp add: same_outside_def)
    have right2: "\<forall>k. p + 1 \<le> k \<and> k \<le> high \<longrightarrow> ?a1 ! nat p < ?a2 ! nat k"
    proof (intro allI impI)
      fix k assume k: "p + 1 \<le> k \<and> k \<le> high"
      with o1 "1.prems" inr len1 have "?a2 ! nat k = ?a1 ! nat k"
        by (simp add: same_outside_def)
      with gt1 k show "?a1 ! nat p < ?a2 ! nat k" by simp
    qed
    have right': "?a1 ! nat p < ?a' ! nat k" if "p + 1 \<le> k" "k \<le> high" for k
      using seg_preserved [OF m2 o2 _ _ right2 that] "1.prems" inr len1 len2 by simp
    have "sorted_seg ?a' low high"
      unfolding sorted_seg_def
    proof (intro allI impI)
      fix k l :: int assume kl: "low \<le> k \<and> k \<le> l \<and> l \<le> high"
      consider "l \<le> p - 1" | "k \<le> p - 1" "l = p" | "k \<le> p - 1" "p + 1 \<le> l"
        | "k = p" "l = p" | "k = p" "p + 1 \<le> l" | "p + 1 \<le> k"
        using kl by linarith
      then show "?a' ! nat k \<le> ?a' ! nat l"
      proof cases
        case 1
        with kl s1 have "?a2 ! nat k \<le> ?a2 ! nat l" by (simp add: sorted_seg_def)
        with 1 kl left' [of k] left' [of l] show ?thesis by simp
      next
        case 2
        with kl left' [of k] left2 [of k] pv' show ?thesis by simp
      next
        case 3
        with kl left' [of k] left2 [of k] right' [of l] show ?thesis by simp
      next
        case 4
        then show ?thesis by simp
      next
        case 5
        with kl right' [of l] pv' show ?thesis by simp
      next
        case 6
        with kl s2 show ?thesis by (simp add: sorted_seg_def)
      qed
    qed
    moreover have "same_outside ?a ?a' low high"
    proof -
      from o1 have "same_outside ?a1 ?a2 low high"
        by (rule same_outside_mono) (use b in simp_all)
      moreover from o2 have "same_outside ?a2 ?a' low high"
        by (rule same_outside_mono) (use b in simp_all)
      ultimately show ?thesis using o0 by (blast intro: same_outside_trans)
    qed
    ultimately show ?thesis by simp
  qed
qed

text \<open>The whole run of \<^verbatim>\<open>quickSort\<close>.\<close>

lemma quickSort_run:
  obtains st' where
    "quickSortHelper 0 (int (length A) - 1) \<lparr>arr = A, steps = []\<rparr> = Some st'"
    "quickSort A = Some (steps st')"
    "frag A (steps st') (arr st')"
    "2 \<le> length A \<longrightarrow> steps st' \<noteq> []"
    "length A < 2 \<longrightarrow> steps st' = []"
    "arr st' = sort A"
proof -
  let ?st = "\<lparr>arr = A, steps = []\<rparr>"
  obtain st' where h: "quickSortHelper 0 (int (length A) - 1) ?st = Some st'"
    using quickSortHelper_total [of 0 "int (length A) - 1" ?st] by auto
  then have q: "quickSort A = Some (steps st')" by (simp add: quickSort_def)
  from quickSortHelper_frag [OF h] have f: "frag A (steps st') (arr st')"
    "2 \<le> length A \<longrightarrow> steps st' \<noteq> []"
    by auto
  have e: "length A < 2 \<longrightarrow> steps st' = []"
  proof
    assume "length A < 2"
    then have "\<not> 0 < int (length A) - 1" by simp
    with h have "st' = ?st" by (simp add: quickSortHelper.simps)
    then show "steps st' = []" by simp
  qed
  from quickSortHelper_sorts [OF h] have s: "sorted_seg (arr st') 0 (int (length A) - 1)"
    by simp
  from f have len: "length (arr st') = length A" by (auto dest: frag_length)
  have "sorted (arr st')"
    unfolding sorted_iff_nth_mono
  proof (intro allI impI)
    fix k l assume "k \<le> l" "l < length (arr st')"
    then have "0 \<le> int k \<and> int k \<le> int l \<and> int l \<le> int (length A) - 1"
      using len by simp
    with s have "arr st' ! nat (int k) \<le> arr st' ! nat (int l)"
      unfolding sorted_seg_def by blast
    then show "arr st' ! k \<le> arr st' ! l" by simp
  qed
  moreover from f have "mset (arr st') = mset A" by (simp add: frag_def)
  ultimately have "arr st' = sort A" by (simp add: properties_for_sort)
  with h q f e that show ?thesis by blast
qed

section \<open>The last step\<close>

lemma steps_for_bounds:
  "comparisons es \<le> sum_list (map steps_for es) \<and>
   sum_list (map steps_for es) \<le> 3 * comparisons es"
  by (induction es) (auto simp: comparisons_def steps_for_def)

lemma bubble_frag_empty:
  assumes "bubble_frag a es a'" "comparisons es = 0"
  shows "es = []"
proof -
  from assms(1) have "length es = sum_list (map steps_for es)" by (simp add: bubble_frag_def)
  moreover from steps_for_bounds [of es] have "sum_list (map steps_for es) \<le> 3 * comparisons es"
    by (rule conjunct2)
  ultimately have "length es = 0" using assms(2) by linarith
  then show ?thesis by simp
qed

lemma pairs_of_two:
  assumes "2 \<le> (n::nat)"
  shows "1 \<le> n * (n - 1) div 2"
proof -
  from assms obtain m where "n = Suc (Suc m)" by (auto simp: numeral_2_eq_2 Suc_le_eq dest: less_imp_Suc_add)
  then have "n * (n - 1) = 2 + (m * m + 3 * m)" by (simp add: algebra_simps)
  then show ?thesis by simp
qed

lemma pairs_of_less_two:
  assumes "(n::nat) < 2"
  shows "n * (n - 1) div 2 = 0"
proof -
  from assms have "n = 0 \<or> n = 1" by auto
  then show ?thesis by auto
qed

text \<open>
  C1, as amended. For every input array \<open>A\<close> with at least two elements, the sequence
  returned by \<^verbatim>\<open>bubbleSort(A)\<close>, and likewise by \<^verbatim>\<open>quickSort(A)\<close>, is not empty and
  the array of its last step is the ascending sort of \<open>A\<close> and a permutation of \<open>A\<close>.
  For an array with fewer than two elements both sequences are empty, so there is no
  last step. Both recorders return for every input.
\<close>

theorem last_step_is_sorted_input:
  "\<exists>bs qs. bubbleSort A = Some bs \<and> quickSort A = Some qs \<and>
     (2 \<le> length A \<longrightarrow>
        bs \<noteq> [] \<and> SortStep.array (last bs) = sort A \<and>
        mset (SortStep.array (last bs)) = mset A \<and>
        qs \<noteq> [] \<and> SortStep.array (last qs) = sort A \<and>
        mset (SortStep.array (last qs)) = mset A) \<and>
     (length A < 2 \<longrightarrow> bs = [] \<and> qs = [])"
proof -
  obtain b :: recorder where b: "bubbleSort A = Some (steps b)" "bubble_frag A (steps b) (arr b)"
    "comparisons (steps b) = length A * (length A - 1) div 2" "arr b = sort A"
    by (rule bubbleSort_run [of A])
  obtain q :: recorder where q: "quickSort A = Some (steps q)" "frag A (steps q) (arr q)"
    "2 \<le> length A \<longrightarrow> steps q \<noteq> []" "length A < 2 \<longrightarrow> steps q = []" "arr q = sort A"
    by (rule quickSort_run [of A])
  have b2: "steps b \<noteq> []" if "2 \<le> length A"
  proof
    assume "steps b = []"
    with b(3) pairs_of_two [OF that] show False by (simp add: comparisons_def)
  qed
  have b0: "steps b = []" if "length A < 2"
    using bubble_frag_empty [OF b(2)] b(3) pairs_of_less_two [OF that] by simp
  from b(2) have bl: "steps b \<noteq> [] \<Longrightarrow> SortStep.array (last (steps b)) = arr b"
    by (simp add: bubble_frag_def frag_def)
  from q(2) have ql: "steps q \<noteq> [] \<Longrightarrow> SortStep.array (last (steps q)) = arr q"
    by (simp add: frag_def)
  from b b2 b0 bl q ql show ?thesis by simp
qed

theorem last_step_is_sorted_input_witness:
  "(2::nat) \<le> length [5, 3, 1 :: int] \<and> length ([] :: int list) < 2 \<and>
   (\<exists>bs qs. bubbleSort [5, 3, 1] = Some bs \<and> quickSort [5, 3, 1] = Some qs \<and>
      SortStep.array (last bs) = [1, 3, 5] \<and> SortStep.array (last qs) = [1, 3, 5]) \<and>
   bubbleSort [] = Some [] \<and> quickSort [] = Some []"
  using last_step_is_sorted_input [of "[5, 3, 1]"] last_step_is_sorted_input [of "[]"]
  by auto

text \<open>
  The claim as it is written speaks of the last step for every input array; for the
  empty array and for a one-element array there is none.
\<close>

theorem last_step_counterexample:
  "bubbleSort [] = Some [] \<and> quickSort [] = Some [] \<and>
   bubbleSort [7] = Some [] \<and> quickSort [7] = Some []"
  by (simp add: bubbleSort_def quickSort_def bubble_outer.simps quickSortHelper.simps)

section \<open>The number of steps of bubble sort\<close>

lemma inverted_comparing: "inverted s \<Longrightarrow> comparing s \<noteq> None"
  by (cases "comparing s") (simp_all add: inverted_def)

lemma steps_for_split:
  "sum_list (map steps_for es) =
     length (filter (\<lambda>s. comparing s \<noteq> None \<and> \<not> inverted s) es) +
     3 * length (filter inverted es)"
proof (induction es)
  case Nil
  show ?case by simp
next
  case (Cons s es)
  show ?case
  proof (cases "inverted s")
    case True
    with inverted_comparing [OF True] Cons show ?thesis by (simp add: steps_for_def)
  next
    case False
    with Cons show ?thesis by (simp add: steps_for_def)
  qed
qed

lemma three_halves: "3 * n * (n - 1) div 2 = 3 * (n * (n - 1) div 2)" for n :: nat
proof -
  have "even (n * (n - 1))" by (cases n) simp_all
  then obtain c where c: "n * (n - 1) = 2 * c" by (rule evenE)
  have "3 * n * (n - 1) = 3 * (n * (n - 1))" by (simp add: mult.assoc)
  with c show ?thesis by simp
qed

text \<open>
  C2. For every input array \<open>A\<close> with \<open>n = |A|\<close>, the number of steps returned by
  \<^verbatim>\<open>bubbleSort(A)\<close> lies between \<open>n(n-1)/2\<close> and \<open>3n(n-1)/2\<close> inclusive: there are
  exactly \<open>n(n-1)/2\<close> comparisons, and the steps are exactly 1 for each comparison that
  is not inverted and exactly 3 for each inverted one. For \<open>n \<le> 1\<close> the step count
  is 0.
\<close>

theorem bubble_step_count:
  "\<exists>ss. bubbleSort A = Some ss \<and>
     length A * (length A - 1) div 2 \<le> length ss \<and>
     length ss \<le> 3 * length A * (length A - 1) div 2 \<and>
     comparisons ss = length A * (length A - 1) div 2 \<and>
     length ss =
       length (filter (\<lambda>s. comparing s \<noteq> None \<and> \<not> inverted s) ss) +
       3 * length (filter inverted ss) \<and>
     (length A \<le> 1 \<longrightarrow> length ss = 0)"
proof -
  obtain b :: recorder where b: "bubbleSort A = Some (steps b)"
    "bubble_frag A (steps b) (arr b)"
    "comparisons (steps b) = length A * (length A - 1) div 2"
    by (rule bubbleSort_run [of A])
  let ?ss = "steps b" and ?c = "length A * (length A - 1) div 2"
  from b(2) have len: "length ?ss = sum_list (map steps_for ?ss)"
    by (simp add: bubble_frag_def)
  with steps_for_bounds [of ?ss] b(3) have bounds: "?c \<le> length ?ss" "length ?ss \<le> 3 * ?c"
    by simp_all
  have small: "length ?ss = 0" if "length A \<le> 1"
  proof -
    from that have "length A < 2" by simp
    from pairs_of_less_two [OF this] bounds(2) show ?thesis by simp
  qed
  from len have split: "length ?ss =
      length (filter (\<lambda>s. comparing s \<noteq> None \<and> \<not> inverted s) ?ss) +
      3 * length (filter inverted ?ss)"
    by (simp only: steps_for_split)
  from bounds(2) have upper: "length ?ss \<le> 3 * length A * (length A - 1) div 2"
    by (simp only: three_halves)
  show ?thesis
  proof (intro exI [of _ ?ss] conjI impI)
    show "bubbleSort A = Some ?ss" by (rule b(1))
    show "?c \<le> length ?ss" by (rule bounds(1))
    show "length ?ss \<le> 3 * length A * (length A - 1) div 2" by (rule upper)
    show "comparisons ?ss = ?c" by (rule b(3))
    show "length ?ss =
      length (filter (\<lambda>s. comparing s \<noteq> None \<and> \<not> inverted s) ?ss) +
      3 * length (filter inverted ?ss)"
      by (rule split)
    show "length ?ss = 0" if "length A \<le> 1" using that by (rule small)
  qed
qed

theorem bubble_step_count_witness:
  "length [7 :: int] \<le> 1 \<and> bubbleSort [7] = Some [] \<and>
   (\<exists>ss. bubbleSort [5, 3, 1] = Some ss \<and> 3 \<le> length ss \<and> length ss \<le> 9 \<and>
      comparisons ss = 3)"
proof -
  from bubble_step_count [of "[7]"] obtain ss where
    "bubbleSort [7] = Some ss" "length [7 :: int] \<le> 1 \<longrightarrow> length ss = 0"
    by blast
  then have one: "bubbleSort [7] = Some []" by simp
  from bubble_step_count [of "[5, 3, 1]"] obtain ss where
    "bubbleSort [5, 3, 1] = Some ss"
    "length [5, 3, 1 :: int] * (length [5, 3, 1 :: int] - 1) div 2 \<le> length ss"
    "length ss \<le> 3 * length [5, 3, 1 :: int] * (length [5, 3, 1 :: int] - 1) div 2"
    "comparisons ss = length [5, 3, 1 :: int] * (length [5, 3, 1 :: int] - 1) div 2"
    by blast
  then have "bubbleSort [5, 3, 1] = Some ss \<and> 3 \<le> length ss \<and> length ss \<le> 9 \<and>
      comparisons ss = 3"
    by simp
  with one show ?thesis by auto
qed

section \<open>Every step\<close>

lemma step_ok_exclusive: "step_ok s \<Longrightarrow> \<not> (comparing s \<noteq> None \<and> swapping s \<noteq> None)"
  by (auto simp: step_ok_def)

lemma step_ok_comparing:
  "step_ok s \<Longrightarrow> comparing s = Some (p, q) \<Longrightarrow> in_range (SortStep.array s) (p, q) \<and> p \<noteq> q"
  by (simp add: step_ok_def)

lemma step_ok_swapping:
  "step_ok s \<Longrightarrow> swapping s = Some (p, q) \<Longrightarrow> in_range (SortStep.array s) (p, q)"
  by (simp add: step_ok_def)

lemma neighbours_swapping: "neighbours s \<Longrightarrow> swapping s = Some (p, q) \<Longrightarrow> p \<noteq> q"
  by (simp add: neighbours_def)

lemma both_runs:
  obtains bs qs ab aq where
    "bubbleSort A = Some bs" "quickSort A = Some qs"
    "bubble_frag A bs ab" "frag A qs aq"
proof -
  obtain b :: recorder where b: "bubbleSort A = Some (steps b)"
    "bubble_frag A (steps b) (arr b)"
    by (rule bubbleSort_run [of A])
  obtain q :: recorder where q: "quickSort A = Some (steps q)" "frag A (steps q) (arr q)"
    by (rule quickSort_run [of A])
  from b q that show ?thesis by blast
qed

text \<open>
  C3, as amended. For every input array and for both recorders, in every emitted step
  the comparing field, when it is not null, is a pair of two distinct indices of the
  array. The swapping field, when it is not null, is a pair of indices of the array;
  the two are distinct in the steps of \<^verbatim>\<open>bubbleSort\<close>, whereas \<^verbatim>\<open>quickSort\<close> also
  records swaps of a position with itself.
\<close>

theorem step_index_pairs:
  "\<exists>bs qs. bubbleSort A = Some bs \<and> quickSort A = Some qs \<and>
     (\<forall>s\<in>set bs. \<forall>p q.
        (comparing s = Some (p, q) \<longrightarrow> in_range (SortStep.array s) (p, q) \<and> p \<noteq> q) \<and>
        (swapping s = Some (p, q) \<longrightarrow> in_range (SortStep.array s) (p, q) \<and> p \<noteq> q)) \<and>
     (\<forall>s\<in>set qs. \<forall>p q.
        (comparing s = Some (p, q) \<longrightarrow> in_range (SortStep.array s) (p, q) \<and> p \<noteq> q) \<and>
        (swapping s = Some (p, q) \<longrightarrow> in_range (SortStep.array s) (p, q)))"
proof -
  obtain bs qs ab aq where r: "bubbleSort A = Some bs" "quickSort A = Some qs"
    "bubble_frag A bs ab" "frag A qs aq"
    by (rule both_runs [of A])
  from r(3) have b: "\<And>s. s \<in> set bs \<Longrightarrow> step_ok s \<and> neighbours s"
    by (simp add: bubble_frag_def frag_def)
  from r(4) have q: "\<And>s. s \<in> set qs \<Longrightarrow> step_ok s" by (simp add: frag_def)
  have "\<forall>s\<in>set bs. \<forall>p q.
        (comparing s = Some (p, q) \<longrightarrow> in_range (SortStep.array s) (p, q) \<and> p \<noteq> q) \<and>
        (swapping s = Some (p, q) \<longrightarrow> in_range (SortStep.array s) (p, q) \<and> p \<noteq> q)"
    using b step_ok_comparing step_ok_swapping neighbours_swapping by blast
  moreover have "\<forall>s\<in>set qs. \<forall>p q.
        (comparing s = Some (p, q) \<longrightarrow> in_range (SortStep.array s) (p, q) \<and> p \<noteq> q) \<and>
        (swapping s = Some (p, q) \<longrightarrow> in_range (SortStep.array s) (p, q))"
    using q step_ok_comparing step_ok_swapping by blast
  ultimately show ?thesis using r(1,2) by blast
qed

text \<open>
  C4. For every input array and for both recorders, no emitted step has both its
  comparing field and its swapping field set.
\<close>

theorem never_comparing_and_swapping:
  "\<exists>bs qs. bubbleSort A = Some bs \<and> quickSort A = Some qs \<and>
     (\<forall>s\<in>set bs \<union> set qs. \<not> (comparing s \<noteq> None \<and> swapping s \<noteq> None))"
proof -
  obtain bs qs ab aq where r: "bubbleSort A = Some bs" "quickSort A = Some qs"
    "bubble_frag A bs ab" "frag A qs aq"
    by (rule both_runs [of A])
  from r(3,4) have "\<forall>s\<in>set bs \<union> set qs. step_ok s"
    by (auto simp: bubble_frag_def frag_def)
  then have "\<forall>s\<in>set bs \<union> set qs. \<not> (comparing s \<noteq> None \<and> swapping s \<noteq> None)"
    using step_ok_exclusive by blast
  with r(1,2) show ?thesis by blast
qed

text \<open>
  C10. For every input array \<open>A\<close> and for both recorders, every step of the returned
  sequence, not only the last, has an array that is a permutation of \<open>A\<close>: the same
  multiset of values, and so the same length.
\<close>

theorem every_step_permutation:
  "\<exists>bs qs. bubbleSort A = Some bs \<and> quickSort A = Some qs \<and>
     (\<forall>s\<in>set bs \<union> set qs.
        mset (SortStep.array s) = mset A \<and> length (SortStep.array s) = length A)"
proof -
  obtain bs qs ab aq where r: "bubbleSort A = Some bs" "quickSort A = Some qs"
    "bubble_frag A bs ab" "frag A qs aq"
    by (rule both_runs [of A])
  from r(3,4) have "\<forall>s\<in>set bs \<union> set qs. mset (SortStep.array s) = mset A"
    by (auto simp: bubble_frag_def frag_def)
  then have "\<forall>s\<in>set bs \<union> set qs.
      mset (SortStep.array s) = mset A \<and> length (SortStep.array s) = length A"
    by (auto dest: mset_eq_length)
  with r(1,2) show ?thesis by blast
qed

section \<open>Some runs\<close>

lemma bubbleSort_2_1:
  "bubbleSort [2, 1] = Some
     [\<lparr>SortStep.array = [2, 1], comparing = Some (0, 1), swapping = None\<rparr>,
      \<lparr>SortStep.array = [2, 1], comparing = None, swapping = Some (0, 1)\<rparr>,
      \<lparr>SortStep.array = [1, 2], comparing = None, swapping = None\<rparr>]"
  by code_simp

lemma quickSort_2_1:
  "quickSort [2, 1] = Some
     [\<lparr>SortStep.array = [2, 1], comparing = Some (0, 1), swapping = None\<rparr>,
      \<lparr>SortStep.array = [2, 1], comparing = None, swapping = Some (0, 1)\<rparr>,
      \<lparr>SortStep.array = [1, 2], comparing = None, swapping = None\<rparr>]"
  by code_simp

text \<open>
  In the steps of \<^verbatim>\<open>bubbleSort([2, 1])\<close> and of \<^verbatim>\<open>quickSort([2, 1])\<close> the first step
  compares positions 0 and 1 and the second swaps them.
\<close>

theorem step_index_pairs_witness:
  "\<exists>bs qs. bubbleSort [2, 1] = Some bs \<and> quickSort [2, 1] = Some qs \<and>
     bs ! 0 \<in> set bs \<and> comparing (bs ! 0) = Some (0, 1) \<and>
     in_range (SortStep.array (bs ! 0)) (0, 1) \<and>
     bs ! 1 \<in> set bs \<and> swapping (bs ! 1) = Some (0, 1) \<and>
     in_range (SortStep.array (bs ! 1)) (0, 1) \<and>
     qs ! 0 \<in> set qs \<and> comparing (qs ! 0) = Some (0, 1) \<and>
     in_range (SortStep.array (qs ! 0)) (0, 1) \<and>
     qs ! 1 \<in> set qs \<and> swapping (qs ! 1) = Some (0, 1) \<and>
     in_range (SortStep.array (qs ! 1)) (0, 1)"
proof -
  from step_index_pairs [of "[2, 1]"] obtain bs qs where
    r: "bubbleSort [2, 1] = Some bs" "quickSort [2, 1] = Some qs"
    and b: "\<And>s p q. s \<in> set bs \<Longrightarrow>
        (comparing s = Some (p, q) \<longrightarrow> in_range (SortStep.array s) (p, q) \<and> p \<noteq> q) \<and>
        (swapping s = Some (p, q) \<longrightarrow> in_range (SortStep.array s) (p, q) \<and> p \<noteq> q)"
    and q: "\<And>s p q. s \<in> set qs \<Longrightarrow>
        (comparing s = Some (p, q) \<longrightarrow> in_range (SortStep.array s) (p, q) \<and> p \<noteq> q) \<and>
        (swapping s = Some (p, q) \<longrightarrow> in_range (SortStep.array s) (p, q))"
    by blast
  from r(1) have b0: "bs ! 0 \<in> set bs" "comparing (bs ! 0) = Some (0, 1)"
    and b1: "bs ! 1 \<in> set bs" "swapping (bs ! 1) = Some (0, 1)"
    by (auto simp: bubbleSort_2_1)
  from r(2) have q0: "qs ! 0 \<in> set qs" "comparing (qs ! 0) = Some (0, 1)"
    and q1: "qs ! 1 \<in> set qs" "swapping (qs ! 1) = Some (0, 1)"
    by (auto simp: quickSort_2_1)
  from b [OF b0(1), of 0 1] b0(2) have "in_range (SortStep.array (bs ! 0)) (0, 1)" by simp
  moreover from b [OF b1(1), of 0 1] b1(2) have "in_range (SortStep.array (bs ! 1)) (0, 1)"
    by simp
  moreover from q [OF q0(1), of 0 1] q0(2) have "in_range (SortStep.array (qs ! 0)) (0, 1)"
    by simp
  moreover from q [OF q1(1), of 0 1] q1(2) have "in_range (SortStep.array (qs ! 1)) (0, 1)"
    by simp
  ultimately show ?thesis using r b0 b1 q0 q1 by blast
qed

text \<open>
  On the sorted input \<open>[1, 2]\<close> the partition of \<^verbatim>\<open>quickSort\<close> swaps position 0 with
  itself (\<^verbatim>\<open>i\<close> has caught up with \<^verbatim>\<open>j\<close>) and then the pivot, at position 1, with
  itself: a swapping pair need not be two distinct indices.
\<close>

theorem self_swap_counterexample:
  "quickSort [1, 2] = Some
     [\<lparr>SortStep.array = [1, 2], comparing = Some (0, 1), swapping = None\<rparr>,
      \<lparr>SortStep.array = [1, 2], comparing = None, swapping = Some (0, 0)\<rparr>,
      \<lparr>SortStep.array = [1, 2], comparing = None, swapping = None\<rparr>,
      \<lparr>SortStep.array = [1, 2], comparing = None, swapping = Some (1, 1)\<rparr>,
      \<lparr>SortStep.array = [1, 2], comparing = None, swapping = None\<rparr>]"
  by code_simp

theorem never_comparing_and_swapping_witness:
  "\<exists>bs qs. bubbleSort [2, 1] = Some bs \<and> quickSort [2, 1] = Some qs \<and>
     bs ! 0 \<in> set bs \<union> set qs \<and> comparing (bs ! 0) \<noteq> None \<and> swapping (bs ! 0) = None \<and>
     qs ! 1 \<in> set bs \<union> set qs \<and> swapping (qs ! 1) \<noteq> None \<and> comparing (qs ! 1) = None"
proof -
  from never_comparing_and_swapping [of "[2, 1]"] obtain bs qs where
    r: "bubbleSort [2, 1] = Some bs" "quickSort [2, 1] = Some qs"
    and n: "\<And>s. s \<in> set bs \<union> set qs \<Longrightarrow> \<not> (comparing s \<noteq> None \<and> swapping s \<noteq> None)"
    by blast
  from r(1) have b0: "bs ! 0 \<in> set bs \<union> set qs" "comparing (bs ! 0) \<noteq> None"
    by (auto simp: bubbleSort_2_1)
  from r(2) have q1: "qs ! 1 \<in> set bs \<union> set qs" "swapping (qs ! 1) \<noteq> None"
    by (auto simp: quickSort_2_1)
  from n [OF b0(1)] b0(2) have "swapping (bs ! 0) = None" by blast
  moreover from n [OF q1(1)] q1(2) have "comparing (qs ! 1) = None" by blast
  ultimately show ?thesis using r b0 q1 by blast
qed

theorem every_step_permutation_witness:
  "\<exists>bs qs. bubbleSort [2, 1] = Some bs \<and> quickSort [2, 1] = Some qs \<and>
     bs ! 2 \<in> set bs \<union> set qs \<and> mset (SortStep.array (bs ! 2)) = mset [2, 1] \<and>
     length (SortStep.array (bs ! 2)) = 2 \<and>
     qs ! 0 \<in> set bs \<union> set qs \<and> mset (SortStep.array (qs ! 0)) = mset [2, 1] \<and>
     length (SortStep.array (qs ! 0)) = 2"
proof -
  from every_step_permutation [of "[2, 1]"] obtain bs qs where
    r: "bubbleSort [2, 1] = Some bs" "quickSort [2, 1] = Some qs"
    and n: "\<And>s. s \<in> set bs \<union> set qs \<Longrightarrow>
      mset (SortStep.array s) = mset [2, 1] \<and>
      length (SortStep.array s) = length [2, 1 :: int]"
    by blast
  from r(1) have b2: "bs ! 2 \<in> set bs \<union> set qs" by (auto simp: bubbleSort_2_1)
  from r(2) have q0: "qs ! 0 \<in> set bs \<union> set qs" by (auto simp: quickSort_2_1)
  from n [OF b2] n [OF q0] r b2 q0 show ?thesis by simp
qed

section \<open>Swapping steps\<close>

lemma swaps_followed_nth:
  "swaps_followed es \<Longrightarrow> k < length es \<Longrightarrow> swapping (es ! k) = Some (p, q) \<Longrightarrow>
     Suc k < length es \<and> comparing (es ! Suc k) = None \<and> swapping (es ! Suc k) = None \<and>
     swap (SortStep.array (es ! k)) p q = Some (SortStep.array (es ! Suc k))"
proof (induction es arbitrary: k rule: swaps_followed.induct)
  case 1
  then show ?case by simp
next
  case (2 s)
  then show ?case by simp
next
  case (3 s t ss)
  show ?case
  proof (cases k)
    case 0
    with "3.prems" show ?thesis by simp
  next
    case (Suc k')
    with "3.prems" "3.IH" [of k'] show ?thesis by simp
  qed
qed

lemma chained_first: "chained a es \<Longrightarrow> es \<noteq> [] \<Longrightarrow> SortStep.array (es ! 0) = a"
  by (cases es) simp_all

lemma chained_nth:
  "chained a es \<Longrightarrow> Suc k < length es \<Longrightarrow> SortStep.array (es ! Suc k) = after_step (es ! k)"
proof (induction es arbitrary: a k)
  case Nil
  then show ?case by simp
next
  case (Cons s ss)
  show ?case
  proof (cases k)
    case 0
    with Cons.prems show ?thesis by (cases ss) simp_all
  next
    case (Suc k')
    with Cons.prems Cons.IH [of "after_step s" k'] show ?thesis by simp
  qed
qed

text \<open>The first step that quick sort records, if it records any, is a comparison.\<close>

lemma partition_loop_first:
  assumes "partition_loop pivot high i j st = Some (i', st')" "j < high"
    "high < int (length (arr st))"
  shows "\<exists>es. steps st' = steps st @ es \<and> es \<noteq> [] \<and> comparing (hd es) \<noteq> None"
  using assms(1,2)
proof (cases rule: partition_loop_step)
  case (keep x)
  let ?c = "\<lparr>SortStep.array = arr st, comparing = Some (j, high), swapping = None\<rparr>"
  from partition_loop_frag [OF keep(3)] assms(3) obtain es where
    "steps st' = (steps st @ [?c]) @ es"
    by auto
  then have "steps st' = steps st @ (?c # es)" "comparing (hd (?c # es)) \<noteq> None" by simp_all
  then show ?thesis by blast
next
  case (swap x b)
  let ?c = "\<lparr>SortStep.array = arr st, comparing = Some (j, high), swapping = None\<rparr>"
  let ?s = "\<lparr>SortStep.array = arr st, comparing = None, swapping = Some (i + 1, j)\<rparr>"
  let ?d = "\<lparr>SortStep.array = b, comparing = None, swapping = None\<rparr>"
  from swap(3) have "length b = length (arr st)" by (rule swap_length)
  with partition_loop_frag [OF swap(4)] assms(3) obtain es where
    "steps st' = (steps st @ [?c, ?s, ?d]) @ es"
    by auto
  then have "steps st' = steps st @ (?c # ?s # ?d # es)"
    "comparing (hd (?c # ?s # ?d # es)) \<noteq> None"
    by simp_all
  then show ?thesis by blast
qed

lemma partition_qs_first:
  assumes "partition_qs low high st = Some (p, st')" "low < high"
  shows "\<exists>es. steps st' = steps st @ es \<and> es \<noteq> [] \<and> comparing (hd es) \<noteq> None"
  using assms(1)
proof (cases rule: partition_qs_cases)
  case (1 pivot i st1 b)
  from 1(1) have "high < int (length (arr st))" by (auto dest!: at_SomeD)
  from partition_loop_first [OF 1(2) assms(2) this] obtain es where
    es: "steps st1 = steps st @ es" "es \<noteq> []" "comparing (hd es) \<noteq> None"
    by blast
  let ?t = "[\<lparr>SortStep.array = arr st1, comparing = None, swapping = Some (i + 1, high)\<rparr>,
             \<lparr>SortStep.array = b, comparing = None, swapping = None\<rparr>]"
  from es 1(5) have "steps st' = steps st @ (es @ ?t)" "es @ ?t \<noteq> []"
    "comparing (hd (es @ ?t)) \<noteq> None"
    by simp_all
  then show ?thesis by blast
qed

lemma quickSortHelper_first:
  assumes "quickSortHelper low high st = Some st'"
  shows "\<exists>es. steps st' = steps st @ es \<and> (es = [] \<or> comparing (hd es) \<noteq> None)"
proof (cases "low < high")
  case False
  with assms have "st' = st" by (simp add: quickSortHelper.simps)
  then show ?thesis by simp
next
  case True
  with assms obtain p st1 st2 where p: "partition_qs low high st = Some (p, st1)"
    and l: "quickSortHelper low (p - 1) st1 = Some st2"
    and r: "quickSortHelper (p + 1) high st2 = Some st'"
    by (auto simp: quickSortHelper.simps [of low high] split: option.splits)
  from partition_qs_first [OF p True] obtain es0 where
    e0: "steps st1 = steps st @ es0" "es0 \<noteq> []" "comparing (hd es0) \<noteq> None"
    by blast
  from quickSortHelper_frag [OF l] obtain es1 where e1: "steps st2 = steps st1 @ es1"
    by blast
  from quickSortHelper_frag [OF r] obtain es2 where e2: "steps st' = steps st2 @ es2"
    by blast
  from e0 e1 e2 have "steps st' = steps st @ (es0 @ es1 @ es2)"
    "comparing (hd (es0 @ es1 @ es2)) \<noteq> None"
    by simp_all
  then show ?thesis by blast
qed

text \<open>
  What a sequence with the properties of \<open>frag\<close> that starts with a comparison says
  about its swapping steps.
\<close>

lemma swap_step_in_frag:
  assumes f: "frag A ss a'" and c: "ss = [] \<or> comparing (hd ss) \<noteq> None"
    and k: "k < length ss" and s: "swapping (ss ! k) = Some (p, q)"
  shows "0 < k" "SortStep.array (ss ! k) = SortStep.array (ss ! (k - 1))"
proof -
  from f have ok: "\<And>s. s \<in> set ss \<Longrightarrow> step_ok s" and sf: "swaps_followed ss"
    and ch: "chained A ss"
    by (simp_all add: frag_def)
  from k have ne: "ss \<noteq> []" by auto
  with c have "comparing (ss ! 0) \<noteq> None" by (simp add: hd_conv_nth)
  moreover from ne have "step_ok (ss ! 0)" by (simp add: ok)
  ultimately have "swapping (ss ! 0) = None" by (auto simp: step_ok_def)
  with s show pos: "0 < k" by (cases k) simp_all
  then obtain k' where k': "k = Suc k'" by (cases k) simp_all
  have "swapping (ss ! k') = None"
  proof (rule ccontr)
    assume "swapping (ss ! k') \<noteq> None"
    then obtain p' q' where "swapping (ss ! k') = Some (p', q')" by auto
    from swaps_followed_nth [OF sf _ this] k k' have "swapping (ss ! k) = None" by simp
    with s show False by simp
  qed
  then have "after_step (ss ! k') = SortStep.array (ss ! k')" by (simp add: after_step_def)
  with chained_nth [OF ch, of k'] k k' show "SortStep.array (ss ! k) = SortStep.array (ss ! (k - 1))"
    by simp
qed

text \<open>
  C5. For every input array and for both recorders, every step whose swapping field
  is a pair \<open>(p, q)\<close> holds the array as it is before that swap is applied: it is not
  the first step and its array is the array of the step before it, and it is
  immediately followed in the sequence by a step with comparing and swapping both null
  whose array is the swapping step's array with the entries at positions \<open>p\<close> and \<open>q\<close>
  exchanged (\<open>swap\<close> is the exchange the recorders perform; it asks that both positions
  exist). The first step holds the input array, and after a step that announces no
  swap the array of the next step is the same: the arrays of the sequence change at the
  announced swaps only, each after the step that announces it.
\<close>

theorem swap_step_then_swapped_array:
  "\<exists>bs qs. bubbleSort A = Some bs \<and> quickSort A = Some qs \<and>
     (\<forall>ss\<in>{bs, qs}.
        (ss \<noteq> [] \<longrightarrow> SortStep.array (ss ! 0) = A) \<and>
        (\<forall>k. Suc k < length ss \<and> swapping (ss ! k) = None \<longrightarrow>
           SortStep.array (ss ! Suc k) = SortStep.array (ss ! k)) \<and>
        (\<forall>k<length ss. \<forall>p q.
           swapping (ss ! k) = Some (p, q) \<longrightarrow>
             0 < k \<and> SortStep.array (ss ! k) = SortStep.array (ss ! (k - 1)) \<and>
             Suc k < length ss \<and>
             comparing (ss ! Suc k) = None \<and> swapping (ss ! Suc k) = None \<and>
             swap (SortStep.array (ss ! k)) p q = Some (SortStep.array (ss ! Suc k)) \<and>
             SortStep.array (ss ! Suc k) =
               (SortStep.array (ss ! k))
                 [nat p := SortStep.array (ss ! k) ! nat q,
                  nat q := SortStep.array (ss ! k) ! nat p]))"
proof -
  obtain b :: recorder where b: "bubbleSort A = Some (steps b)"
    "bubble_frag A (steps b) (arr b)"
    by (rule bubbleSort_run [of A])
  obtain qr :: recorder where
    q: "quickSortHelper 0 (int (length A) - 1) \<lparr>arr = A, steps = []\<rparr> = Some qr"
    "quickSort A = Some (steps qr)" "frag A (steps qr) (arr qr)"
    by (rule quickSort_run [of A])
  from b(2) have fb: "frag A (steps b) (arr b)"
    and cb: "steps b = [] \<or> comparing (hd (steps b)) \<noteq> None"
    by (simp_all add: bubble_frag_def)
  from quickSortHelper_first [OF q(1)]
  have cq: "steps qr = [] \<or> comparing (hd (steps qr)) \<noteq> None" by simp
  have all: "\<exists>a'. frag A ss a' \<and> (ss = [] \<or> comparing (hd ss) \<noteq> None)"
    if "ss \<in> {steps b, steps qr}" for ss
    using that fb cb q(3) cq by auto
  show ?thesis
  proof (rule exI [of _ "steps b"], rule exI [of _ "steps qr"], intro conjI ballI allI impI)
    show "bubbleSort A = Some (steps b)" by (rule b(1))
    show "quickSort A = Some (steps qr)" by (rule q(2))
  next
    fix ss assume "ss \<in> {steps b, steps qr}" "ss \<noteq> []"
    with all [of ss] show "SortStep.array (ss ! 0) = A"
      by (auto simp: frag_def intro: chained_first)
  next
    fix ss k
    assume h: "ss \<in> {steps b, steps qr}" "Suc k < length ss \<and> swapping (ss ! k) = None"
    from all [OF h(1)] have "chained A ss" by (auto simp: frag_def)
    from chained_nth [OF this, of k] h(2)
    show "SortStep.array (ss ! Suc k) = SortStep.array (ss ! k)"
      by (simp add: after_step_def)
  next
    fix ss k p q
    assume h: "ss \<in> {steps b, steps qr}" "k < length ss" "swapping (ss ! k) = Some (p, q)"
    from all [OF h(1)] obtain a' where f: "frag A ss a'"
      and c: "ss = [] \<or> comparing (hd ss) \<noteq> None"
      by blast
    from swap_step_in_frag [OF f c h(2,3)]
    show "0 < k" "SortStep.array (ss ! k) = SortStep.array (ss ! (k - 1))" .
    from f have "swaps_followed ss" by (simp add: frag_def)
    from swaps_followed_nth [OF this h(2,3)]
    show n: "Suc k < length ss" "comparing (ss ! Suc k) = None" "swapping (ss ! Suc k) = None"
      "swap (SortStep.array (ss ! k)) p q = Some (SortStep.array (ss ! Suc k))"
      by simp_all
    from swapD [OF n(4)]
    show "SortStep.array (ss ! Suc k) =
          (SortStep.array (ss ! k))
            [nat p := SortStep.array (ss ! k) ! nat q,
             nat q := SortStep.array (ss ! k) ! nat p]"
      by simp
  qed
qed

text \<open>
  In the three steps of \<^verbatim>\<open>bubbleSort([2, 1])\<close> the second announces the swap of
  positions 0 and 1 and holds \<open>[2, 1]\<close>, as the comparison before it does; the third
  holds \<open>[1, 2]\<close>. The first step announces no swap, and the second holds its array.
\<close>

theorem swap_step_then_swapped_array_witness:
  "\<exists>bs qs. bubbleSort [2, 1] = Some bs \<and> quickSort [2, 1] = Some qs \<and>
     bs \<in> {bs, qs} \<and> bs \<noteq> [] \<and> SortStep.array (bs ! 0) = [2, 1] \<and>
     Suc 0 < length bs \<and> swapping (bs ! 0) = None \<and>
     SortStep.array (bs ! Suc 0) = SortStep.array (bs ! 0) \<and>
     1 < length bs \<and> swapping (bs ! 1) = Some (0, 1) \<and>
     SortStep.array (bs ! 1) = SortStep.array (bs ! (1 - 1)) \<and>
     SortStep.array (bs ! 1) = [2, 1] \<and> SortStep.array (bs ! Suc 1) = [1, 2] \<and>
     comparing (bs ! Suc 1) = None \<and> swapping (bs ! Suc 1) = None"
proof -
  from swap_step_then_swapped_array [of "[2, 1]"] obtain bs qs where
    r: "bubbleSort [2, 1] = Some bs" "quickSort [2, 1] = Some qs"
    and a: "\<forall>ss\<in>{bs, qs}.
        (ss \<noteq> [] \<longrightarrow> SortStep.array (ss ! 0) = [2, 1]) \<and>
        (\<forall>k. Suc k < length ss \<and> swapping (ss ! k) = None \<longrightarrow>
           SortStep.array (ss ! Suc k) = SortStep.array (ss ! k)) \<and>
        (\<forall>k<length ss. \<forall>p q.
           swapping (ss ! k) = Some (p, q) \<longrightarrow>
             0 < k \<and> SortStep.array (ss ! k) = SortStep.array (ss ! (k - 1)) \<and>
             Suc k < length ss \<and>
             comparing (ss ! Suc k) = None \<and> swapping (ss ! Suc k) = None \<and>
             swap (SortStep.array (ss ! k)) p q = Some (SortStep.array (ss ! Suc k)) \<and>
             SortStep.array (ss ! Suc k) =
               (SortStep.array (ss ! k))
                 [nat p := SortStep.array (ss ! k) ! nat q,
                  nat q := SortStep.array (ss ! k) ! nat p])"
    by (elim exE conjE)
  from r(1) have h: "bs \<in> {bs, qs}" "bs \<noteq> []" "Suc 0 < length bs" "swapping (bs ! 0) = None"
    "1 < length bs" "swapping (bs ! 1) = Some (0, 1)"
    by (auto simp: bubbleSort_2_1)
  note c = bspec [OF a h(1)]
  note first = conjunct1 [OF c]
  note same = conjunct1 [OF conjunct2 [OF c], rule_format]
  note sw = conjunct2 [OF conjunct2 [OF c], rule_format]
  from first h(2) have a0: "SortStep.array (bs ! 0) = [2, 1]" by simp
  from same [of 0] h(3,4) have a1: "SortStep.array (bs ! Suc 0) = SortStep.array (bs ! 0)"
    by simp
  with a0 have a1': "SortStep.array (bs ! 1) = [2, 1]" by simp
  from sw [OF h(5,6)] a1' have e: "SortStep.array (bs ! 1) = SortStep.array (bs ! (1 - 1))"
    "SortStep.array (bs ! Suc 1) = [1, 2]"
    "comparing (bs ! Suc 1) = None" "swapping (bs ! Suc 1) = None"
    by simp_all
  show ?thesis
    by (rule exI [of _ bs], rule exI [of _ qs], intro conjI) (fact r h a0 a1 a1' e)+
qed

section \<open>The run on [5, 3, 1]\<close>

text \<open>
  C6, as amended. For the input \<open>[5, 3, 1]\<close>, \<^verbatim>\<open>bubbleSort\<close> returns nine steps. The first
  is \<open>{array: [5,3,1], comparing: [0,1], swapping: null}\<close>, the second
  \<open>{array: [5,3,1], comparing: null, swapping: [0,1]}\<close>, the third
  \<open>{array: [3,5,1], comparing: null, swapping: null}\<close>. The sequence continues, still in
  pass 1 (\<open>i = 0\<close>), with the comparison, the swap and the step after the swap on
  indices \<open>(1, 2)\<close>; pass 2 (\<open>i = 1\<close>) then records three steps on indices \<open>(0, 1)\<close>, and
  the array of the final step is \<open>[1, 3, 5]\<close>. (\<open>bubble_inner n i 0\<close> is pass \<open>i + 1\<close>.)
\<close>

theorem bubble_5_3_1:
  "(let pass1 =
      [\<lparr>SortStep.array = [5, 3, 1], comparing = Some (0, 1), swapping = None\<rparr>,
       \<lparr>SortStep.array = [5, 3, 1], comparing = None, swapping = Some (0, 1)\<rparr>,
       \<lparr>SortStep.array = [3, 5, 1], comparing = None, swapping = None\<rparr>,
       \<lparr>SortStep.array = [3, 5, 1], comparing = Some (1, 2), swapping = None\<rparr>,
       \<lparr>SortStep.array = [3, 5, 1], comparing = None, swapping = Some (1, 2)\<rparr>,
       \<lparr>SortStep.array = [3, 1, 5], comparing = None, swapping = None\<rparr>];
     pass2 =
      [\<lparr>SortStep.array = [3, 1, 5], comparing = Some (0, 1), swapping = None\<rparr>,
       \<lparr>SortStep.array = [3, 1, 5], comparing = None, swapping = Some (0, 1)\<rparr>,
       \<lparr>SortStep.array = [1, 3, 5], comparing = None, swapping = None\<rparr>]
    in
      bubbleSort [5, 3, 1] = Some (pass1 @ pass2) \<and>
      bubble_inner 3 0 0 \<lparr>arr = [5, 3, 1], steps = []\<rparr> =
        Some \<lparr>arr = [3, 1, 5], steps = pass1\<rparr> \<and>
      bubble_inner 3 1 0 \<lparr>arr = [3, 1, 5], steps = pass1\<rparr> =
        Some \<lparr>arr = [1, 3, 5], steps = pass1 @ pass2\<rparr> \<and>
      bubble_outer 3 2 \<lparr>arr = [1, 3, 5], steps = pass1 @ pass2\<rparr> =
        Some \<lparr>arr = [1, 3, 5], steps = pass1 @ pass2\<rparr> \<and>
      SortStep.array (last (pass1 @ pass2)) = [1, 3, 5])"
  by code_simp

text \<open>
  The claim as it is written has pass 2 on indices \<open>(1, 2)\<close>. The steps that pass 2 of
  this run adds to the sequence name indices \<open>(0, 1)\<close> and no others.
\<close>

theorem pass_2_counterexample:
  "(case bubble_inner 3 0 0 \<lparr>arr = [5, 3, 1], steps = []\<rparr> of None \<Rightarrow> False
    | Some st1 \<Rightarrow>
        (case bubble_inner 3 1 0 st1 of None \<Rightarrow> False
         | Some st2 \<Rightarrow>
             map (\<lambda>s. (comparing s, swapping s)) (drop (length (steps st1)) (steps st2)) =
               [(Some (0, 1), None), (None, Some (0, 1)), (None, None)]))"
  by code_simp

section \<open>The playback controller keeps its index in range\<close>





















section \<open>A timeout that fires while a render or an effect is outstanding\<close>

text \<open>
  \<^verbatim>\<open>resetArray\<close> clears no timeout: the timeout is cleared by the cleanup of the
  animation effect only, which runs with the effects of a later render. If the
  timeout set while playing fires after \<^verbatim>\<open>resetArray\<close> has run, from the button or
  from the effect that follows a change of size, and before the effects of the next
  render, its callback increments the index that \<^verbatim>\<open>resetArray\<close> has set to \<open>-1\<close>, and
  the index is \<open>0\<close> with no steps. These orders of actions are the ones that
  \<open>orderly\<close> leaves out.
\<close>

lemma stale_tick_after_reset:
  "\<not> orderly
     [RunEffects [2, 1], Render, RunEffects [], Render, RunEffects [],
      User Play, Render, RunEffects [],
      User (GenerateNewArray [3, 4]), TimerFires] mount \<and>
   map_option (\<lambda>p. (currentStep (state p), sortSteps (state p)))
     (exec
       [RunEffects [2, 1], Render, RunEffects [], Render, RunEffects [],
        User Play, Render, RunEffects [],
        User (GenerateNewArray [3, 4]), TimerFires] mount) =
   Some (0, [])"
  by code_simp

lemma stale_tick_after_size_change:
  "\<not> orderly
     [RunEffects [2, 1], Render, RunEffects [], Render, RunEffects [],
      User Play, Render, RunEffects [],
      User (ChangeSize 10), Render, RunEffects [3, 4], TimerFires, Render] mount \<and>
   map_option (\<lambda>p. (currentStep (rendered p), sortSteps (rendered p)))
     (exec
       [RunEffects [2, 1], Render, RunEffects [], Render, RunEffects [],
        User Play, Render, RunEffects [],
        User (ChangeSize 10), Render, RunEffects [3, 4], TimerFires, Render] mount) =
   Some (0, [])"
  by code_simp

end
